theory Spec2Isabelle
  imports Main "HOL-Library.Word" "HOL-Library.AList"
begin

section \<open>The persistent element store of utymap\<close>

text \<open>
  A shallow embedding of \<^verbatim>\<open>src/core/src/index/PersistentElementStore.cpp\<close>.
  The file system is part of the state: a store operation takes the state and returns
  the new one. Every tile has three files (index log, data log, bitmap blob); the two
  logs are reached through a cached handle that holds two \<^verbatim>\<open>std::fstream\<close>s, each
  with its own file position.
\<close>

subsection \<open>Bytes and the fixed-width index entry\<close>

type_synonym byte = "8 word"
type_synonym path = string

text \<open>
  \<^verbatim>\<open>write(reinterpret_cast<const char *>(&x), sizeof(x))\<close> writes the object
  representation of \<open>x\<close>: \<open>sizeof(x)\<close> bytes, least significant first on the
  little-endian machines the store runs on. \<open>le_bytes k v\<close> are the \<open>k\<close> low bytes
  of \<open>v\<close>, \<open>le_nat\<close> reads them back.
\<close>

primrec le_bytes :: "nat \<Rightarrow> nat \<Rightarrow> byte list" where
  "le_bytes 0 v = []"
| "le_bytes (Suc k) v = of_nat (v mod 256) # le_bytes k (v div 256)"

primrec le_nat :: "byte list \<Rightarrow> nat" where
  "le_nat [] = 0"
| "le_nat (b # bs) = unat b + 256 * le_nat bs"

text \<open>\<^verbatim>\<open>sizeof(std::uint64_t) + sizeof(std::uint32_t)\<close>: the width of an index entry.\<close>

definition entryWidth :: nat where
  "entryWidth = 8 + 4"

subsection \<open>The file system and \<^verbatim>\<open>std::fstream\<close>\<close>

text \<open>
  \<open>files\<close> gives the contents of every existing file. \<open>undeletable\<close> are the paths
  whose removal the operating system refuses (an append-only or locked file): the
  source expects such failures, \<^verbatim>\<open>std::remove\<close> returns non-zero and the path is
  logged. Opening a log for appending is taken to succeed (the tile's directory exists
  and is writable), and streams are unbuffered: a write is on disk at once. A handle
  is the only stream on its file, so buffering would not be observable.
\<close>

record Disk =
  files :: "path \<Rightarrow> byte list option"
  undeletable :: "path set"

definition contents :: "Disk \<Rightarrow> path \<Rightarrow> byte list" where
  "contents d p = (case files d p of None \<Rightarrow> [] | Some bs \<Rightarrow> bs)"

text \<open>
  \<^verbatim>\<open>std::remove(path)\<close>: the result is \<open>True\<close> when the call failed (non-zero in
  C), which it does for a missing file and for one that cannot be deleted.
\<close>

definition std_remove :: "path \<Rightarrow> Disk \<Rightarrow> bool \<times> Disk" where
  "std_remove p d =
     (if files d p \<noteq> None \<and> p \<notin> undeletable d
      then (False, d\<lparr>files := (files d)(p := None)\<rparr>)
      else (True, d))"

text \<open>
  A \<^verbatim>\<open>std::fstream\<close> on a file: a \<^verbatim>\<open>basic_filebuf\<close> has one joint position for
  reading and writing, which \<^verbatim>\<open>tellg\<close> returns and \<^verbatim>\<open>seekg\<close> sets.
\<close>

record fstream =
  fpath :: path
  pos :: nat

text \<open>
  \<^verbatim>\<open>open(path, ios::in | ios::out | ios::binary | ios::app | ios::ate)\<close>: the file
  is created when it does not exist, and the position is moved to its end.
\<close>

definition fstream_open :: "path \<Rightarrow> Disk \<Rightarrow> fstream \<times> Disk" where
  "fstream_open p d =
     (let d' = (case files d p of None \<Rightarrow> d\<lparr>files := (files d)(p \<mapsto> [])\<rparr> | Some _ \<Rightarrow> d)
      in (\<lparr>fpath = p, pos = length (contents d' p)\<rparr>, d'))"

definition tellg :: "fstream \<Rightarrow> nat" where
  "tellg f = pos f"

definition seekg_end :: "Disk \<Rightarrow> fstream \<Rightarrow> fstream" where
  "seekg_end d f = f\<lparr>pos := length (contents d (fpath f))\<rparr>"

definition seekg_beg :: "nat \<Rightarrow> fstream \<Rightarrow> fstream" where
  "seekg_beg off f = f\<lparr>pos := off\<rparr>"

text \<open>A write on a stream opened with \<^verbatim>\<open>ios::app\<close> goes to the end of the file.\<close>

definition fstream_write :: "byte list \<Rightarrow> fstream \<Rightarrow> Disk \<Rightarrow> fstream \<times> Disk" where
  "fstream_write bs f d =
     (let new = contents d (fpath f) @ bs
      in (f\<lparr>pos := length new\<rparr>, d\<lparr>files := (files d)(fpath f \<mapsto> new)\<rparr>))"

text \<open>
  \<^verbatim>\<open>read(buf, n)\<close>. A short read leaves the buffer of the source uninitialised and
  the stream failed; the model stops there with \<open>None\<close>.
\<close>

definition fstream_read :: "nat \<Rightarrow> fstream \<Rightarrow> Disk \<Rightarrow> (byte list \<times> fstream) option" where
  "fstream_read n f d =
     (let bs = contents d (fpath f)
      in if pos f + n \<le> length bs
         then Some (take n (drop (pos f) bs), f\<lparr>pos := pos f + n\<rparr>)
         else None)"

subsection \<open>Tile keys, elements and the collaborators\<close>

text \<open>
  Modelled from the spec: the declaration of \<^verbatim>\<open>QuadKey\<close> is not in the sources; a tile
  key is a level of detail and a tile coordinate.
\<close>

record QuadKey =
  levelOfDetail :: int
  tileX :: int
  tileY :: int

text \<open>
  Modelled from the spec: the declaration of \<^verbatim>\<open>Element\<close> is not in the sources; an
  element has a 64-bit identifier, a set of indexable terms and a geometry. The
  geometry is a type parameter.
\<close>

record 'g Element =
  elem_id :: "64 word"
  terms :: "string list"
  geometry :: 'g

record LodRange =
  lod_start :: int
  lod_end :: int

text \<open>
  Modelled from the spec: \<^verbatim>\<open>BitmapIndex::Bitmap\<close>, a mapping from a term to a
  bit-vector over insertion orders. It is kept as an association list, so that
  \<^verbatim>\<open>empty()\<close> is a test for the empty list.
\<close>

type_synonym Bitmap = "(string \<times> bool list) list"

text \<open>
  The collaborators the source file calls and the spec leaves to its environment:
  the payload codec (\<^verbatim>\<open>ElementStream\<close>), the bitmap codec (\<^verbatim>\<open>BitmapStream\<close>), the
  geometric predicate (\<^verbatim>\<open>ElementGeometryVisitor::intersects\<close>), the tile addressing
  (\<^verbatim>\<open>GeoUtils::quadKeyToString\<close> and the tiles a query's bounding box and range of
  levels cover). \<open>readElement\<close> gets the bytes from the stream's position on and the
  identifier read from the index, and returns the element with the number of bytes
  it consumed.
\<close>

record ('g, 'b) Env =
  writeElement :: "'g Element \<Rightarrow> byte list"
  readElement :: "byte list \<Rightarrow> 64 word \<Rightarrow> ('g Element \<times> nat) option"
  writeBitmap :: "Bitmap \<Rightarrow> byte list"
  readBitmap :: "byte list \<Rightarrow> Bitmap"
  intersects :: "'g Element \<Rightarrow> 'b \<Rightarrow> bool"
  quadKeyToString :: "QuadKey \<Rightarrow> string"
  tileRange :: "'b \<Rightarrow> LodRange \<Rightarrow> QuadKey list"

text \<open>\<^verbatim>\<open>ElementStream::write(stream, element)\<close>.\<close>

definition ElementStream_write ::
  "('g, 'b) Env \<Rightarrow> 'g Element \<Rightarrow> fstream \<Rightarrow> Disk \<Rightarrow> fstream \<times> Disk" where
  "ElementStream_write env e f d = fstream_write (writeElement env e) f d"

text \<open>
  \<^verbatim>\<open>ElementStream::read(stream, id)\<close>: decodes one record at the stream's position.
  A decoder that fails or runs past the end of the file is a failed read.
\<close>

definition ElementStream_read ::
  "('g, 'b) Env \<Rightarrow> fstream \<Rightarrow> Disk \<Rightarrow> 64 word \<Rightarrow> ('g Element \<times> fstream) option" where
  "ElementStream_read env f d i =
     (let rest = drop (pos f) (contents d (fpath f))
      in case readElement env rest i of
           None \<Rightarrow> None
         | Some (e, n) \<Rightarrow> if n \<le> length rest then Some (e, f\<lparr>pos := pos f + n\<rparr>) else None)"

text \<open>
  \<^verbatim>\<open>BitmapStream::read(file, data)\<close> on a stream opened for reading: a missing file
  gives a failed stream, and nothing is read.
\<close>

definition BitmapStream_read :: "('g, 'b) Env \<Rightarrow> Disk \<Rightarrow> path \<Rightarrow> Bitmap" where
  "BitmapStream_read env d p = (case files d p of None \<Rightarrow> [] | Some bs \<Rightarrow> readBitmap env bs)"

subsection \<open>The bitmap index (\<^verbatim>\<open>BitmapIndex\<close>, the base class)\<close>

definition bit_at :: "bool list \<Rightarrow> nat \<Rightarrow> bool" where
  "bit_at v n = (n < length v \<and> v ! n)"

definition set_bit_at :: "nat \<Rightarrow> bool list \<Rightarrow> bool list" where
  "set_bit_at n v = (v @ replicate (Suc n - length v) False)[n := True]"

definition term_bits :: "Bitmap \<Rightarrow> string \<Rightarrow> bool list" where
  "term_bits bm t = (case map_of bm t of None \<Rightarrow> [] | Some v \<Rightarrow> v)"

definition bitmap_set :: "nat \<Rightarrow> Bitmap \<Rightarrow> string \<Rightarrow> Bitmap" where
  "bitmap_set n bm t = AList.update t (set_bit_at n (term_bits bm t)) bm"

text \<open>
  Modelled from the spec: the body of \<^verbatim>\<open>BitmapIndex::add\<close> is not in the sources.
  For every term attached to the element it ensures that the term's bit-vector
  covers \<open>order\<close> and sets bit \<open>order\<close>. This is its effect on the bitmap it got
  from \<^verbatim>\<open>getBitmap\<close>.
\<close>

definition add_terms :: "string list \<Rightarrow> nat \<Rightarrow> Bitmap \<Rightarrow> Bitmap" where
  "add_terms ts n bm = foldl (bitmap_set n) bm ts"

record 'b Query =
  notTerms :: "string list"
  andTerms :: "string list"
  orTerms :: "string list"
  boundingBox :: 'b
  lodRange :: LodRange

text \<open>
  Modelled from the spec: the query evaluation of \<^verbatim>\<open>BitmapIndex::search\<close> is not in
  the sources. It evaluates (OR of the or-terms) AND (AND of the and-terms) AND NOT
  (OR of the not-terms), where an empty list of or-terms restricts nothing, and
  produces the ascending sequence of the positions set in the result. The bounding
  box and the range of levels are not evaluated here.
\<close>

definition query_matches :: "'b Query \<Rightarrow> Bitmap \<Rightarrow> nat \<Rightarrow> bool" where
  "query_matches q bm i =
     ((orTerms q = [] \<or> list_ex (\<lambda>t. bit_at (term_bits bm t) i) (orTerms q))
      \<and> list_all (\<lambda>t. bit_at (term_bits bm t) i) (andTerms q)
      \<and> list_all (\<lambda>t. \<not> bit_at (term_bits bm t) i) (notTerms q))"

definition bitmap_size :: "Bitmap \<Rightarrow> nat" where
  "bitmap_size bm = foldr (\<lambda>(t, v) n. max (length v) n) bm 0"

definition matching_orders :: "'b Query \<Rightarrow> Bitmap \<Rightarrow> nat list" where
  "matching_orders q bm = filter (query_matches q bm) [0 ..< bitmap_size bm]"

subsection \<open>The cached tile handle (\<^verbatim>\<open>QuadKeyData\<close>)\<close>

record BitmapData =
  path :: path
  data :: Bitmap

record QuadKeyData =
  dataFile :: fstream
  indexFile :: fstream
  dataPath :: path
  indexPath :: path
  bitmapPath :: path
  bitmapData :: BitmapData

text \<open>The constructor opens the two logs; the bitmap holder starts empty.\<close>

definition QuadKeyData_new :: "path \<Rightarrow> path \<Rightarrow> path \<Rightarrow> Disk \<Rightarrow> QuadKeyData \<times> Disk" where
  "QuadKeyData_new dp ip bp d =
     (let (df, d1) = fstream_open dp d;
          (xf, d2) = fstream_open ip d1
      in (\<lparr>dataFile = df, indexFile = xf, dataPath = dp, indexPath = ip,
           bitmapPath = bp, bitmapData = \<lparr>path = bp, data = []\<rparr>\<rparr>, d2))"

text \<open>
  \<^verbatim>\<open>QuadKeyData::getBitmap\<close>: the blob is read from disk whenever the bitmap in
  memory is empty. The second component lists the files read (none or one).
\<close>

definition QuadKeyData_getBitmap ::
  "('g, 'b) Env \<Rightarrow> Disk \<Rightarrow> QuadKeyData \<Rightarrow> QuadKeyData \<times> path list" where
  "QuadKeyData_getBitmap env d h =
     (if data (bitmapData h) = []
      then (h\<lparr>bitmapData :=
                (bitmapData h)\<lparr>data := BitmapStream_read env d (path (bitmapData h))\<rparr>\<rparr>,
            [path (bitmapData h)])
      else (h, []))"

definition logEraseError :: "path \<Rightarrow> string" where
  "logEraseError p = ''Cannot erase '' @ p"

text \<open>
  \<^verbatim>\<open>QuadKeyData::erase\<close>: the streams are closed (no effect on the disk of the
  model), then the three files are removed one after the other; each failure adds
  a line to the diagnostic stream and the next removal is still made.
\<close>

definition QuadKeyData_erase :: "QuadKeyData \<Rightarrow> Disk \<Rightarrow> Disk \<times> string list" where
  "QuadKeyData_erase h d =
     (let (r1, d1) = std_remove (dataPath h) d;
          log1 = (if r1 then [logEraseError (dataPath h)] else []);
          (r2, d2) = std_remove (indexPath h) d1;
          log2 = (if r2 then [logEraseError (indexPath h)] else []);
          (r3, d3) = std_remove (bitmapPath h) d2;
          log3 = (if r3 then [logEraseError (bitmapPath h)] else [])
      in (d3, log1 @ log2 @ log3))"

subsection \<open>The resource cache (\<^verbatim>\<open>LruCache\<close>)\<close>

text \<open>
  Modelled from the spec: \<^verbatim>\<open>utils/LruCache.hpp\<close> is not in the sources. A
  fixed-capacity cache, most recently used entry first: \<open>get\<close> on a hit marks the
  entry most recently used, \<open>put\<close> evicts the least recently used entry when the
  cache is at capacity, \<open>clear\<close> evicts every entry.
\<close>

definition lru_exists :: "'k \<Rightarrow> ('k \<times> 'v) list \<Rightarrow> bool" where
  "lru_exists k c = (map_of c k \<noteq> None)"

definition lru_get :: "'k \<Rightarrow> ('k \<times> 'v) list \<Rightarrow> ('v \<times> ('k \<times> 'v) list) option" where
  "lru_get k c =
     (case map_of c k of
        None \<Rightarrow> None
      | Some v \<Rightarrow> Some (v, (k, v) # filter (\<lambda>kv. fst kv \<noteq> k) c))"

definition lru_put :: "nat \<Rightarrow> 'k \<Rightarrow> 'v \<Rightarrow> ('k \<times> 'v) list \<Rightarrow> ('k \<times> 'v) list" where
  "lru_put cap k v c =
     (let c' = filter (\<lambda>kv. fst kv \<noteq> k) c
      in (k, v) # (if cap \<le> length c' then take (cap - 1) c' else c'))"

definition lru_clear :: "('k \<times> 'v) list \<Rightarrow> ('k \<times> 'v) list" where
  "lru_clear c = []"

subsection \<open>The store (\<^verbatim>\<open>PersistentElementStoreImpl\<close>) and its world\<close>

text \<open>
  \<open>rootPath\<close> is the member \<^verbatim>\<open>dataPath_\<close> of the store (renamed: the handle has a
  member of the same name); the members are written without their trailing underscore. \<open>cerr\<close> are the lines written to \<^verbatim>\<open>std::cerr\<close>;
  \<open>bitmapReads\<close> are the blob files read by \<^verbatim>\<open>BitmapStream::read\<close>, in order.
\<close>

record Store =
  rootPath :: string
  cache :: "(QuadKey \<times> QuadKeyData) list"
  disk :: Disk
  cerr :: "string list"
  bitmapReads :: "path list"

definition IndexFileExtension :: string where
  "IndexFileExtension = ''.idf''"

definition DataFileExtension :: string where
  "DataFileExtension = ''.dat''"

definition bitmapFileExtension :: string where
  "bitmapFileExtension = ''.bmp''"

definition cacheCapacity :: nat where
  "cacheCapacity = 12"

text \<open>The decimal digits \<^verbatim>\<open>operator<<\<close> prints for the level of detail.\<close>

function decimal :: "nat \<Rightarrow> string" where
  "decimal n =
     (if 10 \<le> n then decimal (n div 10) @ [''0123456789'' ! (n mod 10)]
      else [''0123456789'' ! n])"
  by pat_completeness auto
termination
  by (relation "measure (\<lambda>n. n)") auto

text \<open>The level of detail is an \<^verbatim>\<open>int\<close>: a negative one is printed with its sign.\<close>

definition decimal_int :: "int \<Rightarrow> string" where
  "decimal_int i = (if 0 \<le> i then decimal (nat i) else CHR ''-'' # decimal (nat (- i)))"

definition getFilePath :: "('g, 'b) Env \<Rightarrow> Store \<Rightarrow> QuadKey \<Rightarrow> string \<Rightarrow> path" where
  "getFilePath env s quadKey extension =
     rootPath s @ ''/'' @ decimal_int (levelOfDetail quadKey) @ ''/''
       @ quadKeyToString env quadKey @ extension"

text \<open>
  \<^verbatim>\<open>getQuadKeyData\<close>. On a miss the handle is constructed (which opens, and so
  creates, the two logs) and put into the cache; the \<^verbatim>\<open>get\<close> that follows returns
  the entry just put, which is the most recent one already.
\<close>

definition getQuadKeyData :: "('g, 'b) Env \<Rightarrow> QuadKey \<Rightarrow> Store \<Rightarrow> QuadKeyData \<times> Store" where
  "getQuadKeyData env quadKey s =
     (case lru_get quadKey (cache s) of
        Some (h, c) \<Rightarrow> (h, s\<lparr>cache := c\<rparr>)
      | None \<Rightarrow>
          (let (h, d) = QuadKeyData_new (getFilePath env s quadKey DataFileExtension)
                          (getFilePath env s quadKey IndexFileExtension)
                          (getFilePath env s quadKey bitmapFileExtension) (disk s)
           in (h, s\<lparr>cache := lru_put cacheCapacity quadKey h (cache s), disk := d\<rparr>)))"

text \<open>
  The handle is shared (\<^verbatim>\<open>std::shared_ptr\<close>): what an operation does to the
  streams and the bitmap of the handle it holds is done to the cached handle.
  \<open>put_back\<close> writes the handle's new value to the cache entry of its key, and
  \<open>handle_of\<close> reads the handle behind the pointer again.
\<close>

definition put_back :: "QuadKey \<Rightarrow> QuadKeyData \<Rightarrow> Store \<Rightarrow> Store" where
  "put_back quadKey h s =
     s\<lparr>cache := map (\<lambda>kv. if fst kv = quadKey then (quadKey, h) else kv) (cache s)\<rparr>"

definition handle_of :: "QuadKey \<Rightarrow> QuadKeyData \<Rightarrow> Store \<Rightarrow> QuadKeyData" where
  "handle_of quadKey h s = (case map_of (cache s) quadKey of None \<Rightarrow> h | Some h' \<Rightarrow> h')"

text \<open>The override \<^verbatim>\<open>getBitmap(quadKey)\<close> of the store.\<close>

definition getBitmap :: "('g, 'b) Env \<Rightarrow> QuadKey \<Rightarrow> Store \<Rightarrow> Bitmap \<times> Store" where
  "getBitmap env quadKey s =
     (let (h, s1) = getQuadKeyData env quadKey s;
          (h', rd) = QuadKeyData_getBitmap env (disk s1) h
      in (data (bitmapData h'),
          put_back quadKey h' (s1\<lparr>bitmapReads := bitmapReads s1 @ rd\<rparr>)))"

text \<open>
  \<^verbatim>\<open>BitmapIndex::add(element, quadKey, order)\<close>: the bitmap is the reference that
  \<^verbatim>\<open>getBitmap\<close> returned, so the new bits are those of the cached handle.
\<close>

definition modify_bitmap :: "QuadKey \<Rightarrow> (Bitmap \<Rightarrow> Bitmap) \<Rightarrow> Store \<Rightarrow> Store" where
  "modify_bitmap quadKey f s =
     s\<lparr>cache := map (\<lambda>kv. if fst kv = quadKey
                           then (fst kv, (snd kv)\<lparr>bitmapData :=
                                   (bitmapData (snd kv))\<lparr>data := f (data (bitmapData (snd kv)))\<rparr>\<rparr>)
                           else kv) (cache s)\<rparr>"

definition BitmapIndex_add ::
  "('g, 'b) Env \<Rightarrow> 'g Element \<Rightarrow> QuadKey \<Rightarrow> 32 word \<Rightarrow> Store \<Rightarrow> Store" where
  "BitmapIndex_add env element quadKey order' s =
     (let (bm, s1) = getBitmap env quadKey s
      in modify_bitmap quadKey (add_terms (terms element) (unat order')) s1)"

subsection \<open>Storing an element\<close>

text \<open>
  \<^verbatim>\<open>store(element, quadKey)\<close>, statement by statement. \<open>offset\<close> and \<open>order\<close> are
  computed from \<^verbatim>\<open>tellg()\<close>, the current positions of the two streams, before the
  streams are moved to the end of their files.
\<close>

definition store :: "('g, 'b) Env \<Rightarrow> 'g Element \<Rightarrow> QuadKey \<Rightarrow> Store \<Rightarrow> Store" where
  "store env element quadKey s =
     (let (h, s1) = getQuadKeyData env quadKey s;
          offset = (of_nat (tellg (dataFile h)) :: 32 word);
          fileSize = tellg (indexFile h);
          order' = (of_nat (fileSize div entryWidth) :: 32 word);
          xf1 = seekg_end (disk s1) (indexFile h);
          (xf2, d1) = fstream_write (le_bytes 8 (unat (elem_id element))) xf1 (disk s1);
          (xf3, d2) = fstream_write (le_bytes 4 (unat offset)) xf2 d1;
          df1 = seekg_end d2 (dataFile h);
          (df2, d3) = ElementStream_write env element df1 d2;
          h2 = h\<lparr>dataFile := df2, indexFile := xf3\<rparr>;
          s2 = put_back quadKey h2 (s1\<lparr>disk := d3\<rparr>);
          s3 = BitmapIndex_add env element quadKey order' s2;
          (h4, rd1) = QuadKeyData_getBitmap env (disk s3) (handle_of quadKey h2 s3);
          d4 = (disk s3)\<lparr>files := (files (disk s3))(path (bitmapData h4) \<mapsto> [])\<rparr>;
          (h5, rd2) = QuadKeyData_getBitmap env d4 h4;
          d5 = d4\<lparr>files := (files d4)(path (bitmapData h4) \<mapsto> writeBitmap env (data (bitmapData h5)))\<rparr>
      in put_back quadKey h5 (s3\<lparr>disk := d5, bitmapReads := bitmapReads s3 @ rd1 @ rd2\<rparr>))"

subsection \<open>Reading\<close>

text \<open>\<^verbatim>\<open>readIndexEntry\<close>: eight bytes of identifier, four bytes of offset.\<close>

definition readIndexEntry :: "fstream \<Rightarrow> Disk \<Rightarrow> ((64 word \<times> 32 word) \<times> fstream) option" where
  "readIndexEntry f d =
     (case fstream_read 8 f d of
        None \<Rightarrow> None
      | Some (b1, f1) \<Rightarrow>
          (case fstream_read 4 f1 d of
             None \<Rightarrow> None
           | Some (b2, f2) \<Rightarrow> Some ((of_nat (le_nat b1), of_nat (le_nat b2)), f2)))"

text \<open>
  The three statements that the scan and \<^verbatim>\<open>notify\<close> share: read the index entry
  at the index stream's position, seek the data log to its offset, decode one element
  and hand it to the visitor. A visitor is its \<open>accept\<close> function on a state of its
  own.
\<close>

definition visit_entry ::
  "('g, 'b) Env \<Rightarrow> Disk \<Rightarrow> ('g Element \<Rightarrow> 'v \<Rightarrow> 'v) \<Rightarrow> QuadKeyData \<Rightarrow> 'v \<Rightarrow> (QuadKeyData \<times> 'v) option" where
  "visit_entry env d accept h v =
     (case readIndexEntry (indexFile h) d of
        None \<Rightarrow> None
      | Some (entry, xf) \<Rightarrow>
          (let df = seekg_beg (unat (snd entry)) (dataFile h)
           in case ElementStream_read env df d (fst entry) of
                None \<Rightarrow> None
              | Some (e, df') \<Rightarrow> Some (h\<lparr>dataFile := df', indexFile := xf\<rparr>, accept e v)))"

text \<open>
  The loop of the full scan, on the number of iterations left. The cancellation
  token is read by \<^verbatim>\<open>isCancelled()\<close> and set by other threads: \<open>tok n\<close> is the answer
  to the \<open>n\<close>-th call, and the loop counts its calls.
\<close>

primrec scan_loop ::
  "('g, 'b) Env \<Rightarrow> Disk \<Rightarrow> ('g Element \<Rightarrow> 'v \<Rightarrow> 'v) \<Rightarrow> (nat \<Rightarrow> bool) \<Rightarrow> nat
     \<Rightarrow> QuadKeyData \<Rightarrow> 'v \<Rightarrow> nat \<Rightarrow> (QuadKeyData \<times> 'v \<times> nat) option" where
  "scan_loop env d accept tok 0 h v polls = Some (h, v, polls)"
| "scan_loop env d accept tok (Suc n) h v polls =
     (if tok polls then Some (h, v, Suc polls)
      else case visit_entry env d accept h v of
             None \<Rightarrow> None
           | Some (h', v') \<Rightarrow> scan_loop env d accept tok n h' v' (Suc polls))"

text \<open>
  \<^verbatim>\<open>search(quadKey, visitor, cancelToken)\<close>: the result is the visitor's state, the
  number of calls of \<^verbatim>\<open>isCancelled()\<close> and the new state of the store.
\<close>

definition search_tile ::
  "('g, 'b) Env \<Rightarrow> QuadKey \<Rightarrow> ('g Element \<Rightarrow> 'v \<Rightarrow> 'v) \<Rightarrow> 'v \<Rightarrow> (nat \<Rightarrow> bool) \<Rightarrow> Store
     \<Rightarrow> ('v \<times> nat \<times> Store) option" where
  "search_tile env quadKey accept v cancelToken s =
     (let (h, s1) = getQuadKeyData env quadKey s;
          count = (of_nat (tellg (indexFile h) div entryWidth) :: 32 word);
          h1 = h\<lparr>indexFile := seekg_beg 0 (indexFile h)\<rparr>
      in case scan_loop env (disk s1) accept cancelToken (unat count) h1 v 0 of
           None \<Rightarrow> None
         | Some (h2, v', polls) \<Rightarrow> Some (v', polls, put_back quadKey h2 s1))"

text \<open>\<^verbatim>\<open>notify(quadKey, order, visitor)\<close>: random access by insertion order.\<close>

definition notify ::
  "('g, 'b) Env \<Rightarrow> QuadKey \<Rightarrow> 32 word \<Rightarrow> ('g Element \<Rightarrow> 'v \<Rightarrow> 'v) \<Rightarrow> 'v \<Rightarrow> Store
     \<Rightarrow> ('v \<times> Store) option" where
  "notify env quadKey order' accept v s =
     (let (h, s1) = getQuadKeyData env quadKey s;
          offset = unat order' * entryWidth;
          h1 = h\<lparr>indexFile := seekg_beg offset (indexFile h)\<rparr>
      in case visit_entry env (disk s1) accept h1 v of
           None \<Rightarrow> None
         | Some (h2, v') \<Rightarrow> Some (v', put_back quadKey h2 s1))"

text \<open>
  Modelled from the spec: the body of \<^verbatim>\<open>BitmapIndex::search(query, visitor)\<close> is not
  in the sources. For each tile the query covers it takes the tile's bitmap from
  \<^verbatim>\<open>getBitmap\<close>, and for each matching order, ascending, it calls the hook
  \<^verbatim>\<open>notify\<close>, which decodes the element and delivers it to the visitor.
\<close>

fun notify_all ::
  "('g, 'b) Env \<Rightarrow> QuadKey \<Rightarrow> ('g Element \<Rightarrow> 'v \<Rightarrow> 'v) \<Rightarrow> nat list \<Rightarrow> 'v \<Rightarrow> Store
     \<Rightarrow> ('v \<times> Store) option" where
  "notify_all env quadKey accept [] v s = Some (v, s)"
| "notify_all env quadKey accept (n # ns) v s =
     (case notify env quadKey (of_nat n) accept v s of
        None \<Rightarrow> None
      | Some (v', s') \<Rightarrow> notify_all env quadKey accept ns v' s')"

fun search_tiles ::
  "('g, 'b) Env \<Rightarrow> 'b Query \<Rightarrow> ('g Element \<Rightarrow> 'v \<Rightarrow> 'v) \<Rightarrow> QuadKey list \<Rightarrow> 'v \<Rightarrow> Store
     \<Rightarrow> ('v \<times> Store) option" where
  "search_tiles env query accept [] v s = Some (v, s)"
| "search_tiles env query accept (quadKey # quadKeys) v s =
     (let (bm, s1) = getBitmap env quadKey s
      in case notify_all env quadKey accept (matching_orders query bm) v s1 of
           None \<Rightarrow> None
         | Some (v', s') \<Rightarrow> search_tiles env query accept quadKeys v' s')"

definition BitmapIndex_search ::
  "('g, 'b) Env \<Rightarrow> 'b Query \<Rightarrow> ('g Element \<Rightarrow> 'v \<Rightarrow> 'v) \<Rightarrow> 'v \<Rightarrow> Store \<Rightarrow> ('v \<times> Store) option" where
  "BitmapIndex_search env query accept v s =
     search_tiles env query accept (tileRange env (boundingBox query) (lodRange query)) v s"

text \<open>
  Modelled from the spec: \<^verbatim>\<open>ElementVisitorFilter\<close> is not in the sources. The
  adapter wraps the caller's visitor and forwards an element only when the predicate
  holds for it.
\<close>

definition ElementVisitorFilter ::
  "('e \<Rightarrow> 'v \<Rightarrow> 'v) \<Rightarrow> ('e \<Rightarrow> bool) \<Rightarrow> 'e \<Rightarrow> 'v \<Rightarrow> 'v" where
  "ElementVisitorFilter accept pred e v = (if pred e then accept e v else v)"

text \<open>
  \<^verbatim>\<open>search(query, visitor, cancelToken)\<close>: the token is a parameter that the body
  does not use.
\<close>

definition search_query ::
  "('g, 'b) Env \<Rightarrow> 'b Query \<Rightarrow> ('g Element \<Rightarrow> 'v \<Rightarrow> 'v) \<Rightarrow> 'v \<Rightarrow> (nat \<Rightarrow> bool) \<Rightarrow> Store
     \<Rightarrow> ('v \<times> Store) option" where
  "search_query env query accept v cancelToken s =
     BitmapIndex_search env query
       (ElementVisitorFilter accept (\<lambda>element. intersects env element (boundingBox query))) v s"

subsection \<open>Probing, erasing, flushing\<close>

text \<open>
  \<^verbatim>\<open>hasData\<close> opens a \<^verbatim>\<open>std::ifstream\<close> on the data file and returns whether the
  stream is good: the file exists. The method is \<^verbatim>\<open>const\<close>; the state is returned
  as it was.
\<close>

definition hasData :: "('g, 'b) Env \<Rightarrow> QuadKey \<Rightarrow> Store \<Rightarrow> bool \<times> Store" where
  "hasData env quadKey s =
     (files (disk s) (getFilePath env s quadKey DataFileExtension) \<noteq> None, s)"

definition erase :: "('g, 'b) Env \<Rightarrow> QuadKey \<Rightarrow> Store \<Rightarrow> Store" where
  "erase env quadKey s =
     (let (h, s1) = getQuadKeyData env quadKey s;
          (d, lines) = QuadKeyData_erase h (disk s1)
      in s1\<lparr>disk := d, cerr := cerr s1 @ lines, cache := lru_clear (cache s1)\<rparr>)"

datatype error = domain_error string

text \<open>
  \<^verbatim>\<open>erase(bbox, range)\<close> throws: the result is the exception, and the state it
  leaves is the state it was called in.
\<close>

definition erase_range :: "'b \<Rightarrow> LodRange \<Rightarrow> Store \<Rightarrow> (error + unit) \<times> Store" where
  "erase_range bbox r s =
     (Inl (domain_error ''Deletion by bounding box and lod range is not implemented.''), s)"

definition flush :: "Store \<Rightarrow> Store" where
  "flush s = s\<lparr>cache := lru_clear (cache s)\<rparr>"

text \<open>The public operations of \<^verbatim>\<open>PersistentElementStore\<close> forward to the implementation.\<close>

definition save :: "('g, 'b) Env \<Rightarrow> 'g Element \<Rightarrow> QuadKey \<Rightarrow> Store \<Rightarrow> Store" where
  "save env element quadKey s = store env element quadKey s"

text \<open>The store a constructor call makes, on a given disk.\<close>

definition new_store :: "string \<Rightarrow> Disk \<Rightarrow> Store" where
  "new_store dataPath' d =
     \<lparr>rootPath = dataPath', cache = [], disk = d, cerr = [], bitmapReads = []\<rparr>"

section \<open>Auxiliary notions\<close>

text \<open>The visitor that records the elements it is given, in order.\<close>

definition collect :: "'e \<Rightarrow> 'e list \<Rightarrow> 'e list" where
  "collect e es = es @ [e]"

text \<open>
  What \<^verbatim>\<open>QuadKeyData::getBitmap\<close> returns on a handle and a disk, and the files it
  reads for it.
\<close>

definition loaded_bitmap :: "('g, 'b) Env \<Rightarrow> Disk \<Rightarrow> QuadKeyData \<Rightarrow> Bitmap" where
  "loaded_bitmap env d h =
     (if data (bitmapData h) = [] then BitmapStream_read env d (path (bitmapData h))
      else data (bitmapData h))"

definition load_reads :: "QuadKeyData \<Rightarrow> path list" where
  "load_reads h = (if data (bitmapData h) = [] then [path (bitmapData h)] else [])"

text \<open>
  The bitmap that the last two statements of \<^verbatim>\<open>store\<close> write: when the bitmap in
  memory is empty, the second \<^verbatim>\<open>getBitmap()\<close> reads the file that the statement
  before has just truncated.
\<close>

definition stored_bitmap :: "('g, 'b) Env \<Rightarrow> Bitmap \<Rightarrow> Bitmap" where
  "stored_bitmap env bm = (if bm = [] then readBitmap env [] else bm)"

text \<open>The twelve bytes of an index entry, and of a list of entries.\<close>

definition entry_bytes :: "64 word \<times> 32 word \<Rightarrow> byte list" where
  "entry_bytes en = le_bytes 8 (unat (fst en)) @ le_bytes 4 (unat (snd en))"

definition index_bytes :: "(64 word \<times> 32 word) list \<Rightarrow> byte list" where
  "index_bytes ens = concat (map entry_bytes ens)"

text \<open>The entry \<open>en\<close> of the index decodes to the element \<open>e\<close> on the data log \<open>dat\<close>.\<close>

definition decodes :: "('g, 'b) Env \<Rightarrow> byte list \<Rightarrow> 64 word \<times> 32 word \<Rightarrow> 'g Element \<Rightarrow> bool" where
  "decodes env dat en e =
     (case readElement env (drop (unat (snd en)) dat) (fst en) of
        None \<Rightarrow> False
      | Some (e', n) \<Rightarrow> e' = e \<and> n \<le> length dat - unat (snd en))"

text \<open>The path of a file of a tile, by the root of the store.\<close>

definition tile_path :: "('g, 'b) Env \<Rightarrow> string \<Rightarrow> QuadKey \<Rightarrow> string \<Rightarrow> path" where
  "tile_path env r k ext = r @ ''/'' @ decimal_int (levelOfDetail k) @ ''/'' @ quadKeyToString env k @ ext"

text \<open>
  The invariant of the cache: every cached handle is the handle of its key (its
  paths are those of its tile), its two logs exist, its index stream stands inside the
  index log, and its bitmap is empty (not loaded, or nothing to load) or is the blob
  on disk.
\<close>

definition handle_inv :: "('g, 'b) Env \<Rightarrow> string \<Rightarrow> Disk \<Rightarrow> QuadKey \<times> QuadKeyData \<Rightarrow> bool" where
  "handle_inv env r d kh =
     (dataPath (snd kh) = tile_path env r (fst kh) DataFileExtension
      \<and> indexPath (snd kh) = tile_path env r (fst kh) IndexFileExtension
      \<and> bitmapPath (snd kh) = tile_path env r (fst kh) bitmapFileExtension
      \<and> fpath (dataFile (snd kh)) = dataPath (snd kh)
      \<and> fpath (indexFile (snd kh)) = indexPath (snd kh)
      \<and> path (bitmapData (snd kh)) = bitmapPath (snd kh)
      \<and> files d (dataPath (snd kh)) \<noteq> None
      \<and> files d (indexPath (snd kh)) \<noteq> None
      \<and> pos (indexFile (snd kh)) \<le> length (contents d (indexPath (snd kh)))
      \<and> (data (bitmapData (snd kh)) = []
          \<or> data (bitmapData (snd kh)) = BitmapStream_read env d (bitmapPath (snd kh))))"

definition store_inv :: "('g, 'b) Env \<Rightarrow> Store \<Rightarrow> bool" where
  "store_inv env s = list_all (handle_inv env (rootPath s) (disk s)) (cache s)"

text \<open>The keys of the cached handles are among the tiles \<open>K\<close>.\<close>

definition keys_in :: "QuadKey set \<Rightarrow> Store \<Rightarrow> bool" where
  "keys_in K s = list_all (\<lambda>kv. fst kv \<in> K) (cache s)"

text \<open>The disk after the logs of a tile were opened.\<close>

definition open_logs :: "('g, 'b) Env \<Rightarrow> string \<Rightarrow> QuadKey \<Rightarrow> Disk \<Rightarrow> Disk" where
  "open_logs env r k d =
     d\<lparr>files := (files d)
        (tile_path env r k DataFileExtension \<mapsto> contents d (tile_path env r k DataFileExtension),
         tile_path env r k IndexFileExtension \<mapsto> contents d (tile_path env r k IndexFileExtension))\<rparr>"

text \<open>Two handles with the same streams: the same files, the index stream at the same position.\<close>

definition same_streams :: "QuadKeyData \<Rightarrow> QuadKeyData \<Rightarrow> bool" where
  "same_streams h h' =
     (fpath (indexFile h) = fpath (indexFile h') \<and> pos (indexFile h) = pos (indexFile h')
      \<and> fpath (dataFile h) = fpath (dataFile h'))"

text \<open>Two stores on the same disk, both with the invariant.\<close>

definition sim :: "('g, 'b) Env \<Rightarrow> Store \<Rightarrow> Store \<Rightarrow> bool" where
  "sim env s s' = (rootPath s = rootPath s' \<and> disk s = disk s' \<and> store_inv env s \<and> store_inv env s')"

section \<open>An example store\<close>

text \<open>
  A small instance of the collaborators, for the concrete runs below: a geometry is a
  number and a bounding box an interval; an element is written as its geometry, the
  number of its terms and one byte for each term; a bitmap as, for each term, its byte,
  the length of its bit-vector and the bits. Every tile is named \<open>t\<close>, and a query
  covers the tile \<open>(0, 0)\<close> of its first level.
\<close>

definition demo_term :: "byte \<Rightarrow> string" where
  "demo_term c = (if c = 97 then ''a'' else if c = 98 then ''b'' else ''c'')"

definition demo_byte :: "string \<Rightarrow> byte" where
  "demo_byte t = (if t = ''a'' then 97 else if t = ''b'' then 98 else 99)"

function demo_readBitmap :: "byte list \<Rightarrow> Bitmap" where
  "demo_readBitmap (c # n # rest) =
     (demo_term c, map (\<lambda>b. b \<noteq> 0) (take (unat n) rest)) # demo_readBitmap (drop (unat n) rest)"
| "demo_readBitmap [c] = []"
| "demo_readBitmap [] = []"
  by pat_completeness auto
termination
  by (relation "measure length") auto

definition demo_writeBitmap :: "Bitmap \<Rightarrow> byte list" where
  "demo_writeBitmap bm =
     concat (map (\<lambda>tv. demo_byte (fst tv) # of_nat (length (snd tv))
                          # map (\<lambda>b. if b then 1 else 0) (snd tv)) bm)"

definition demo_writeElement :: "int Element \<Rightarrow> byte list" where
  "demo_writeElement e = of_int (geometry e) # of_nat (length (terms e)) # map demo_byte (terms e)"

definition demo_readElement :: "byte list \<Rightarrow> 64 word \<Rightarrow> (int Element \<times> nat) option" where
  "demo_readElement bs i =
     (case bs of
        g # n # rest \<Rightarrow>
          Some (\<lparr>elem_id = i, terms = map demo_term (take (unat n) rest), geometry = uint g\<rparr>,
                2 + unat n)
      | _ \<Rightarrow> None)"

definition demo_env :: "(int, int \<times> int) Env" where
  "demo_env =
     \<lparr>writeElement = demo_writeElement,
      readElement = demo_readElement,
      writeBitmap = demo_writeBitmap,
      readBitmap = demo_readBitmap,
      intersects = (\<lambda>e b. fst b \<le> geometry e \<and> geometry e \<le> snd b),
      quadKeyToString = (\<lambda>k. ''t''),
      tileRange = (\<lambda>b r. [\<lparr>levelOfDetail = lod_start r, tileX = 0, tileY = 0\<rparr>])\<rparr>"

definition T :: QuadKey where
  "T = \<lparr>levelOfDetail = 1, tileX = 0, tileY = 0\<rparr>"

definition E1 :: "int Element" where
  "E1 = \<lparr>elem_id = 1, terms = [''a''], geometry = 5\<rparr>"

definition E2 :: "int Element" where
  "E2 = \<lparr>elem_id = 2, terms = [''b''], geometry = 6\<rparr>"

definition E3 :: "int Element" where
  "E3 = \<lparr>elem_id = 3, terms = [''c''], geometry = 7\<rparr>"

text \<open>A disk given by the list of its files, all of them deletable.\<close>

definition disk_of :: "(path \<times> byte list) list \<Rightarrow> Disk" where
  "disk_of al = \<lparr>files = map_of al, undeletable = {}\<rparr>"

text \<open>The query for the term \<open>a\<close> on the tile \<open>T\<close>, with a box that holds every element.\<close>

definition q1 :: "(int \<times> int) Query" where
  "q1 = \<lparr>notTerms = [], andTerms = [''a''], orTerms = [], boundingBox = (0, 10),
          lodRange = \<lparr>lod_start = 1, lod_end = 1\<rparr>\<rparr>"

text \<open>The handle of the tile \<open>T\<close> under the root \<open>r\<close>, by its two positions and its bitmap.\<close>

definition H :: "nat \<Rightarrow> nat \<Rightarrow> Bitmap \<Rightarrow> QuadKeyData" where
  "H dpos ipos bm =
     \<lparr>dataFile = \<lparr>fpath = ''r/1/t.dat'', pos = dpos\<rparr>,
      indexFile = \<lparr>fpath = ''r/1/t.idf'', pos = ipos\<rparr>,
      dataPath = ''r/1/t.dat'', indexPath = ''r/1/t.idf'', bitmapPath = ''r/1/t.bmp'',
      bitmapData = \<lparr>path = ''r/1/t.bmp'', data = bm\<rparr>\<rparr>"

text \<open>
  The store after \<open>E1\<close> and \<open>E2\<close> were saved under \<open>T\<close>, by the positions of the
  handle's streams; and after \<open>E3\<close> was saved with the streams at \<open>3\<close> and \<open>12\<close>.
\<close>

definition idx2 :: "byte list" where
  "idx2 = [1, 0, 0, 0, 0, 0, 0, 0, 0, 0, 0, 0, 2, 0, 0, 0, 0, 0, 0, 0, 3, 0, 0, 0]"

definition bm2 :: Bitmap where
  "bm2 = [(''a'', [True]), (''b'', [False, True])]"

definition S2 :: "nat \<Rightarrow> nat \<Rightarrow> Store" where
  "S2 dpos ipos =
     \<lparr>rootPath = ''r'', cache = [(T, H dpos ipos bm2)],
      disk = disk_of [(''r/1/t.dat'', [5, 1, 97, 6, 1, 98]), (''r/1/t.idf'', idx2),
                      (''r/1/t.bmp'', demo_writeBitmap bm2)],
      cerr = [], bitmapReads = [''r/1/t.bmp'']\<rparr>"

definition bm3 :: Bitmap where
  "bm3 = [(''a'', [True]), (''b'', [False, True]), (''c'', [False, True])]"

definition S4 :: Store where
  "S4 =
     \<lparr>rootPath = ''r'', cache = [(T, H 9 36 bm3)],
      disk = disk_of [(''r/1/t.dat'', [5, 1, 97, 6, 1, 98, 7, 1, 99]),
                      (''r/1/t.idf'', idx2 @ [3, 0, 0, 0, 0, 0, 0, 0, 3, 0, 0, 0]),
                      (''r/1/t.bmp'', demo_writeBitmap bm3)],
      cerr = [], bitmapReads = [''r/1/t.bmp'']\<rparr>"


text \<open>A disk whose data log of \<open>T\<close> cannot be removed.\<close>

definition locked_disk :: Disk where
  "locked_disk = \<lparr>files = [''r/1/t.dat'' \<mapsto> [5, 1, 97]], undeletable = {''r/1/t.dat''}\<rparr>"

text \<open>The query \<open>q1\<close> with a box that holds no element.\<close>

definition q2 :: "(int \<times> int) Query" where
  "q2 = \<lparr>notTerms = [], andTerms = [''a''], orTerms = [], boundingBox = (0, 4),
          lodRange = \<lparr>lod_start = 1, lod_end = 1\<rparr>\<rparr>"


section \<open>Symbolic execution of the operations\<close>

declare decimal.simps [simp del]

subsection \<open>The cache\<close>

lemma filter_keys_id: "list_all (\<lambda>kv. fst kv \<noteq> k) xs \<Longrightarrow> filter (\<lambda>kv. fst kv \<noteq> k) xs = xs"
  by (induction xs) auto

lemma list_all_filter_keys: "list_all (\<lambda>kv. fst kv \<noteq> k) (filter (\<lambda>kv. fst kv \<noteq> k) xs)"
  by (induction xs) auto

lemma list_all_take: "list_all P xs \<Longrightarrow> list_all P (take n xs)"
  by (simp add: list_all_iff) (meson in_set_takeD)

lemma map_keys_id:
  "list_all (\<lambda>kv. fst kv \<noteq> k) xs \<Longrightarrow> map (\<lambda>kv. if fst kv = k then g kv else kv) xs = xs"
  by (induction xs) auto

text \<open>
  After \<open>getQuadKeyData\<close> the handle is the first entry of the cache, and the only one
  of its key.
\<close>

lemma getQuadKeyData_front:
  assumes "getQuadKeyData env k s = (h, s1)"
  obtains rest where
    "s1 = \<lparr>rootPath = rootPath s, cache = (k, h) # rest, disk = disk s1, cerr = cerr s,
           bitmapReads = bitmapReads s\<rparr>"
    "list_all (\<lambda>kv. fst kv \<noteq> k) rest"
proof -
  from assms have "\<exists>rest. cache s1 = (k, h) # rest \<and> list_all (\<lambda>kv. fst kv \<noteq> k) rest"
    by (auto simp: getQuadKeyData_def lru_get_def lru_put_def Let_def list_all_filter_keys list_all_take
        split: option.splits prod.splits)
  moreover from assms have "rootPath s1 = rootPath s \<and> cerr s1 = cerr s \<and> bitmapReads s1 = bitmapReads s"
    by (auto simp: getQuadKeyData_def Let_def split: option.splits prod.splits)
  ultimately show ?thesis
    using that by (cases s1) auto
qed

text \<open>
  The operations on a store whose cache begins with the handle of the tile: the
  form every state has after \<open>getQuadKeyData\<close>.
\<close>

lemma getQuadKeyData_lit:
  "list_all (\<lambda>kv. fst kv \<noteq> k) rest \<Longrightarrow>
   getQuadKeyData env k \<lparr>rootPath = r, cache = (k, h) # rest, disk = d, cerr = l, bitmapReads = b\<rparr>
     = (h, \<lparr>rootPath = r, cache = (k, h) # rest, disk = d, cerr = l, bitmapReads = b\<rparr>)"
  by (simp add: getQuadKeyData_def lru_get_def filter_keys_id)

lemma put_back_lit:
  "list_all (\<lambda>kv. fst kv \<noteq> k) rest \<Longrightarrow>
   put_back k h' \<lparr>rootPath = r, cache = (k, h) # rest, disk = d, cerr = l, bitmapReads = b\<rparr>
     = \<lparr>rootPath = r, cache = (k, h') # rest, disk = d, cerr = l, bitmapReads = b\<rparr>"
  by (simp add: put_back_def map_keys_id)

lemma handle_of_lit:
  "handle_of k h0 \<lparr>rootPath = r, cache = (k, h) # rest, disk = d, cerr = l, bitmapReads = b\<rparr> = h"
  by (simp add: handle_of_def)

lemma modify_bitmap_lit:
  "list_all (\<lambda>kv. fst kv \<noteq> k) rest \<Longrightarrow>
   modify_bitmap k f \<lparr>rootPath = r, cache = (k, h) # rest, disk = d, cerr = l, bitmapReads = b\<rparr>
     = \<lparr>rootPath = r,
        cache = (k, h\<lparr>bitmapData := (bitmapData h)\<lparr>data := f (data (bitmapData h))\<rparr>\<rparr>) # rest,
        disk = d, cerr = l, bitmapReads = b\<rparr>"
  by (simp add: modify_bitmap_def map_keys_id)

subsection \<open>The bitmap\<close>

lemma QuadKeyData_getBitmap_eq:
  "QuadKeyData_getBitmap env d h =
     (h\<lparr>bitmapData := (bitmapData h)\<lparr>data := loaded_bitmap env d h\<rparr>\<rparr>, load_reads h)"
  by (simp add: QuadKeyData_getBitmap_def loaded_bitmap_def load_reads_def)

lemma getBitmap_lit:
  "list_all (\<lambda>kv. fst kv \<noteq> k) rest \<Longrightarrow>
   getBitmap env k \<lparr>rootPath = r, cache = (k, h) # rest, disk = d, cerr = l, bitmapReads = b\<rparr> =
     (loaded_bitmap env d h,
      \<lparr>rootPath = r,
        cache = (k, h\<lparr>bitmapData := (bitmapData h)\<lparr>data := loaded_bitmap env d h\<rparr>\<rparr>) # rest,
        disk = d, cerr = l, bitmapReads = b @ load_reads h\<rparr>)"
  by (simp add: getBitmap_def getQuadKeyData_lit QuadKeyData_getBitmap_eq put_back_lit)

lemma BitmapIndex_add_lit:
  "list_all (\<lambda>kv. fst kv \<noteq> k) rest \<Longrightarrow>
   BitmapIndex_add env e k n \<lparr>rootPath = r, cache = (k, h) # rest, disk = d, cerr = l, bitmapReads = b\<rparr> =
     \<lparr>rootPath = r,
       cache = (k, h\<lparr>bitmapData := (bitmapData h)\<lparr>data := add_terms (terms e) (unat n) (loaded_bitmap env d h)\<rparr>\<rparr>) # rest,
       disk = d, cerr = l, bitmapReads = b @ load_reads h\<rparr>"
  by (simp add: BitmapIndex_add_def getBitmap_lit modify_bitmap_lit)

lemma contents_upd [simp]:
  "contents (d\<lparr>files := F(p \<mapsto> bs)\<rparr>) q = (if q = p then bs else contents (d\<lparr>files := F\<rparr>) q)"
  by (simp add: contents_def)

lemma BitmapStream_read_upd [simp]:
  "BitmapStream_read env (d\<lparr>files := F(p \<mapsto> bs)\<rparr>) q =
     (if q = p then readBitmap env bs else BitmapStream_read env (d\<lparr>files := F\<rparr>) q)"
  by (simp add: BitmapStream_read_def)

lemma foldl_bitmap_set_Nil: "foldl (bitmap_set n) bm ts = [] \<longleftrightarrow> ts = [] \<and> bm = []"
  by (induction ts arbitrary: bm) (auto simp: bitmap_set_def)

lemma add_terms_Nil: "add_terms ts n bm = [] \<longleftrightarrow> ts = [] \<and> bm = []"
  by (simp add: add_terms_def foldl_bitmap_set_Nil)

lemma loaded_bitmap_Nil:
  "loaded_bitmap env d h = [] \<longleftrightarrow>
     data (bitmapData h) = [] \<and> BitmapStream_read env d (path (bitmapData h)) = []"
  by (auto simp: loaded_bitmap_def)

lemma loaded_bitmap_logs [simp]:
  "loaded_bitmap env d (h\<lparr>dataFile := x\<rparr>) = loaded_bitmap env d h"
  "loaded_bitmap env d (h\<lparr>indexFile := y\<rparr>) = loaded_bitmap env d h"
  by (simp_all add: loaded_bitmap_def)

lemma load_reads_logs [simp]:
  "load_reads (h\<lparr>dataFile := x\<rparr>) = load_reads h"
  "load_reads (h\<lparr>indexFile := y\<rparr>) = load_reads h"
  by (simp_all add: load_reads_def)

lemma loaded_bitmap_upd:
  "p \<noteq> path (bitmapData h) \<Longrightarrow>
   loaded_bitmap env (d\<lparr>files := F(p \<mapsto> bs)\<rparr>) h = loaded_bitmap env (d\<lparr>files := F\<rparr>) h"
  by (simp add: loaded_bitmap_def)

lemma load_reads_data:
  "bm \<noteq> [] \<Longrightarrow> load_reads (h\<lparr>bitmapData := bd\<lparr>data := bm\<rparr>\<rparr>) = []"
  by (simp add: load_reads_def)

lemma loaded_bitmap_data:
  "bm \<noteq> [] \<Longrightarrow> loaded_bitmap env d (h\<lparr>bitmapData := bd\<lparr>data := bm\<rparr>\<rparr>) = bm"
  by (simp add: loaded_bitmap_def)

subsection \<open>Storing\<close>

text \<open>
  The state after \<open>store\<close>, from the state after its first statement: one entry and
  one record are appended, the bits of the element's terms are set at \<open>order\<close>, and
  the blob is the bitmap in memory.
\<close>

lemma store_lit:
  assumes g: "getQuadKeyData env k s =
                (h, \<lparr>rootPath = r, cache = (k, h) # rest, disk = d, cerr = l, bitmapReads = b\<rparr>)"
    and nk: "list_all (\<lambda>kv. fst kv \<noteq> k) rest"
    and paths: "fpath (dataFile h) = dp" "fpath (indexFile h) = ip" "path (bitmapData h) = bp"
      "dp \<noteq> ip" "dp \<noteq> bp" "ip \<noteq> bp"
  shows "store env e k s =
    (let offset = (of_nat (pos (dataFile h)) :: 32 word);
         order' = (of_nat (pos (indexFile h) div 12) :: 32 word);
         idx = contents d ip @ le_bytes 8 (unat (elem_id e)) @ le_bytes 4 (unat offset);
         dat = contents d dp @ writeElement env e;
         bm1 = add_terms (terms e) (unat order') (loaded_bitmap env d h);
         bm2 = stored_bitmap env bm1
     in \<lparr>rootPath = r,
         cache = (k, h\<lparr>dataFile := (dataFile h)\<lparr>pos := length dat\<rparr>,
                       indexFile := (indexFile h)\<lparr>pos := length idx\<rparr>,
                       bitmapData := (bitmapData h)\<lparr>data := bm2\<rparr>\<rparr>) # rest,
         disk = d\<lparr>files := (files d)(ip \<mapsto> idx, dp \<mapsto> dat, bp \<mapsto> writeBitmap env bm2)\<rparr>,
         cerr = l,
         bitmapReads = b @ load_reads h @ (if bm1 = [] then [bp, bp] else [])\<rparr>)"
proof (cases "terms e = [] \<and> loaded_bitmap env d h = []")
  case True
  then have 1: "data (bitmapData h) = []" "BitmapStream_read env d bp = []" "terms e = []"
    using paths by (simp_all add: loaded_bitmap_Nil)
  show ?thesis
    unfolding store_def g
    using nk paths(4-6)
    by (simp add: Let_def tellg_def seekg_end_def fstream_write_def ElementStream_write_def
      put_back_lit BitmapIndex_add_lit handle_of_lit QuadKeyData_getBitmap_eq entryWidth_def paths(1-3) 1
      loaded_bitmap_def load_reads_def stored_bitmap_def add_terms_def)
next
  case False
  then have 1: "add_terms (terms e) n (loaded_bitmap env d h) \<noteq> []" for n
    by (simp add: add_terms_Nil)
  show ?thesis
    unfolding store_def g
    using nk paths(4-6)
    by (simp add: Let_def tellg_def seekg_end_def fstream_write_def ElementStream_write_def
      put_back_lit BitmapIndex_add_lit handle_of_lit QuadKeyData_getBitmap_eq entryWidth_def paths(1-3) 1
      stored_bitmap_def loaded_bitmap_upd loaded_bitmap_data load_reads_data)
qed

subsection \<open>Reading\<close>

lemma length_le_bytes [simp]: "length (le_bytes k v) = k"
  by (induction k arbitrary: v) auto

lemma le_nat_le_bytes: "le_nat (le_bytes k v) = v mod 256 ^ k"
proof (induction k arbitrary: v)
  case 0
  then show ?case by simp
next
  case (Suc k)
  have "unat (of_nat (v mod 256) :: byte) = v mod 256"
    by (simp add: unat_of_nat)
  then show ?case
    using Suc [of "v div 256"] by (simp add: mod_mult2_eq)
qed

lemma le_nat_le_bytes_64: "of_nat (le_nat (le_bytes 8 (unat (w :: 64 word)))) = w"
proof -
  have "unat w < 2 ^ 64" using unsigned_less [of w] by simp
  then have "unat w mod 256 ^ 8 = unat w" by simp
  then show ?thesis by (simp add: le_nat_le_bytes)
qed

lemma le_nat_le_bytes_32: "of_nat (le_nat (le_bytes 4 (unat (w :: 32 word)))) = w"
proof -
  have "unat w < 2 ^ 32" using unsigned_less [of w] by simp
  then have "unat w mod 256 ^ 4 = unat w" by simp
  then show ?thesis by (simp add: le_nat_le_bytes)
qed

lemma le_bytes_4:
  "le_bytes 4 v = [of_nat (v mod 256), of_nat (v div 256 mod 256), of_nat (v div 256 div 256 mod 256),
     of_nat (v div 256 div 256 div 256 mod 256)]"
proof -
  have "(4::nat) = Suc (Suc (Suc (Suc 0)))" by simp
  then show ?thesis by (simp only: le_bytes.simps)
qed

lemma le_bytes_8:
  "le_bytes 8 v = [of_nat (v mod 256), of_nat (v div 256 mod 256), of_nat (v div 256 div 256 mod 256),
     of_nat (v div 256 div 256 div 256 mod 256)] @ le_bytes 4 (v div 256 div 256 div 256 div 256)"
proof -
  have "(8::nat) = Suc (Suc (Suc (Suc 4)))" by simp
  then show ?thesis by (simp only: le_bytes.simps append.simps)
qed

lemma length_entry_bytes [simp]: "length (entry_bytes en) = 12"
  by (simp add: entry_bytes_def)

lemma index_bytes_simps [simp]:
  "index_bytes [] = []"
  "index_bytes (en # ens) = entry_bytes en @ index_bytes ens"
  "index_bytes (ens @ ens') = index_bytes ens @ index_bytes ens'"
  by (simp_all add: index_bytes_def)

lemma length_index_bytes [simp]: "length (index_bytes ens) = 12 * length ens"
  by (induction ens) auto

lemma readIndexEntry_at:
  assumes "contents d (fpath f) = pre @ entry_bytes en @ post" and "pos f = length pre"
  shows "readIndexEntry f d = Some (en, f\<lparr>pos := length pre + 12\<rparr>)"
  using assms
  by (simp add: readIndexEntry_def fstream_read_def entry_bytes_def le_nat_le_bytes_64 le_nat_le_bytes_32)

lemma visit_entry_at:
  assumes "contents d (fpath (indexFile h)) = pre @ entry_bytes en @ post"
    and "pos (indexFile h) = length pre"
    and "decodes env (contents d (fpath (dataFile h))) en e"
  shows "\<exists>n. visit_entry env d accept h v =
           Some (h\<lparr>dataFile := (dataFile h)\<lparr>pos := unat (snd en) + n\<rparr>,
                   indexFile := (indexFile h)\<lparr>pos := length pre + 12\<rparr>\<rparr>, accept e v)
         \<and> readElement env (drop (unat (snd en)) (contents d (fpath (dataFile h)))) (fst en) = Some (e, n)"
  using assms(3) readIndexEntry_at [OF assms(1,2)]
  by (auto simp: visit_entry_def decodes_def ElementStream_read_def seekg_beg_def Let_def
      split: option.splits prod.splits)

lemma scan_loop_entries:
  assumes "list_all2 (decodes env dat) ens es"
    and "contents d (fpath (dataFile h)) = dat"
    and "contents d (fpath (indexFile h)) = pre @ index_bytes ens @ post"
    and "pos (indexFile h) = length pre"
  shows "\<exists>h'. scan_loop env d accept (\<lambda>_. False) (length ens) h v p =
            Some (h', foldl (\<lambda>v e. accept e v) v es, p + length ens)"
  using assms
proof (induction ens es arbitrary: h v p pre rule: list_all2_induct)
  case Nil
  then show ?case by simp
next
  case (Cons en ens e es)
  from Cons.prems have c: "contents d (fpath (indexFile h)) = pre @ entry_bytes en @ (index_bytes ens @ post)"
    by simp
  from Cons.hyps(1) Cons.prems(1) have dc: "decodes env (contents d (fpath (dataFile h))) en e"
    by simp
  from visit_entry_at [OF c Cons.prems(3) dc, of accept v]
  obtain n where v: "visit_entry env d accept h v =
      Some (h\<lparr>dataFile := (dataFile h)\<lparr>pos := unat (snd en) + n\<rparr>,
              indexFile := (indexFile h)\<lparr>pos := length pre + 12\<rparr>\<rparr>, accept e v)"
    by blast
  let ?h = "h\<lparr>dataFile := (dataFile h)\<lparr>pos := unat (snd en) + n\<rparr>,
              indexFile := (indexFile h)\<lparr>pos := length pre + 12\<rparr>\<rparr>"
  have "\<exists>h'. scan_loop env d accept (\<lambda>_. False) (length ens) ?h (accept e v) (Suc p) =
            Some (h', foldl (\<lambda>v e. accept e v) (accept e v) es, Suc p + length ens)"
    by (rule Cons.IH [where pre = "pre @ entry_bytes en"]) (use Cons.prems in simp_all)
  then show ?case
    by (simp add: v)
qed

lemma scan_loop_numeral:
  "scan_loop env d accept tok (numeral n) h v polls =
     (if tok polls then Some (h, v, Suc polls)
      else case visit_entry env d accept h v of
             None \<Rightarrow> None
           | Some (h', v') \<Rightarrow> scan_loop env d accept tok (pred_numeral n) h' v' (Suc polls))"
  by (simp add: numeral_eq_Suc)

lemma search_tile_lit:
  "list_all (\<lambda>kv. fst kv \<noteq> k) rest \<Longrightarrow>
   search_tile env k accept v tok \<lparr>rootPath = r, cache = (k, h) # rest, disk = d, cerr = l, bitmapReads = b\<rparr> =
     (case scan_loop env d accept tok (unat (of_nat (pos (indexFile h) div 12) :: 32 word))
             (h\<lparr>indexFile := (indexFile h)\<lparr>pos := 0\<rparr>\<rparr>) v 0 of
        None \<Rightarrow> None
      | Some (h2, v', polls) \<Rightarrow>
          Some (v', polls, \<lparr>rootPath = r, cache = (k, h2) # rest, disk = d, cerr = l, bitmapReads = b\<rparr>))"
  by (simp add: search_tile_def getQuadKeyData_lit put_back_lit tellg_def seekg_beg_def entryWidth_def
      split: option.splits)

lemma notify_lit:
  "list_all (\<lambda>kv. fst kv \<noteq> k) rest \<Longrightarrow>
   notify env k n accept v \<lparr>rootPath = r, cache = (k, h) # rest, disk = d, cerr = l, bitmapReads = b\<rparr> =
     (case visit_entry env d accept (h\<lparr>indexFile := (indexFile h)\<lparr>pos := unat n * 12\<rparr>\<rparr>) v of
        None \<Rightarrow> None
      | Some (h2, v') \<Rightarrow>
          Some (v', \<lparr>rootPath = r, cache = (k, h2) # rest, disk = d, cerr = l, bitmapReads = b\<rparr>))"
  by (simp add: notify_def getQuadKeyData_lit put_back_lit seekg_beg_def entryWidth_def
      split: option.splits)

subsection \<open>Paths and the invariant of the cache\<close>

lemma getFilePath_tile_path: "getFilePath env s k ext = tile_path env (rootPath s) k ext"
  by (simp add: getFilePath_def tile_path_def)

lemma tile_path_distinct [simp]:
  "tile_path env r k DataFileExtension \<noteq> tile_path env r k IndexFileExtension"
  "tile_path env r k DataFileExtension \<noteq> tile_path env r k bitmapFileExtension"
  "tile_path env r k IndexFileExtension \<noteq> tile_path env r k bitmapFileExtension"
  "tile_path env r k IndexFileExtension \<noteq> tile_path env r k DataFileExtension"
  "tile_path env r k bitmapFileExtension \<noteq> tile_path env r k DataFileExtension"
  "tile_path env r k bitmapFileExtension \<noteq> tile_path env r k IndexFileExtension"
  by (simp_all add: tile_path_def DataFileExtension_def IndexFileExtension_def bitmapFileExtension_def)

lemma map_of_list_all:
  "list_all P c \<Longrightarrow> map_of c k = Some h \<Longrightarrow> P (k, h)"
  by (induction c) (auto split: if_splits)

lemma list_all_filter: "list_all P xs \<Longrightarrow> list_all P (filter Q xs)"
  by (induction xs) auto

text \<open>The handle that a cache miss constructs, and the disk after it.\<close>

lemma getQuadKeyData_miss:
  assumes "map_of (cache s) k = None"
  shows "getQuadKeyData env k s =
    (let dp = tile_path env (rootPath s) k DataFileExtension;
         ip = tile_path env (rootPath s) k IndexFileExtension;
         bp = tile_path env (rootPath s) k bitmapFileExtension;
         h = \<lparr>dataFile = \<lparr>fpath = dp, pos = length (contents (disk s) dp)\<rparr>,
              indexFile = \<lparr>fpath = ip, pos = length (contents (disk s) ip)\<rparr>,
              dataPath = dp, indexPath = ip, bitmapPath = bp,
              bitmapData = \<lparr>path = bp, data = []\<rparr>\<rparr>
     in (h, s\<lparr>cache := lru_put cacheCapacity k h (cache s),
              disk := (disk s)\<lparr>files := (files (disk s))(dp \<mapsto> contents (disk s) dp, ip \<mapsto> contents (disk s) ip)\<rparr>\<rparr>))"
  using assms
  apply (simp add: getQuadKeyData_def lru_get_def QuadKeyData_new_def fstream_open_def getFilePath_tile_path Let_def
      split: option.splits)
  apply (auto simp: contents_def fun_eq_iff split: option.splits)
  done

lemma getQuadKeyData_hit:
  assumes "map_of (cache s) k = Some h"
  shows "getQuadKeyData env k s = (h, s\<lparr>cache := (k, h) # filter (\<lambda>kv. fst kv \<noteq> k) (cache s)\<rparr>)"
  using assms by (simp add: getQuadKeyData_def lru_get_def)

text \<open>Creating the logs of a tile changes no bitmap, and no file that exists.\<close>

lemma tile_path_split:
  "tile_path env r k ext = (r @ ''/'' @ decimal_int (levelOfDetail k) @ ''/'' @ quadKeyToString env k) @ ext"
  by (simp add: tile_path_def)

lemma append_ext_neq: "length x = length y \<Longrightarrow> x \<noteq> y \<Longrightarrow> p @ x \<noteq> q @ y"
  by simp

lemma tile_path_ext:
  "tile_path env r k DataFileExtension \<noteq> tile_path env r' k' bitmapFileExtension"
  "tile_path env r k IndexFileExtension \<noteq> tile_path env r' k' bitmapFileExtension"
  "tile_path env r k DataFileExtension \<noteq> tile_path env r' k' IndexFileExtension"
  unfolding tile_path_split
  by (rule append_ext_neq; simp add: DataFileExtension_def IndexFileExtension_def bitmapFileExtension_def)+

lemma handle_inv_create:
  assumes "handle_inv env r d kh"
  shows "handle_inv env r
    (d\<lparr>files := (files d)(tile_path env r' k DataFileExtension \<mapsto> contents d (tile_path env r' k DataFileExtension),
                          tile_path env r' k IndexFileExtension \<mapsto> contents d (tile_path env r' k IndexFileExtension))\<rparr>) kh"
  using assms tile_path_ext(1,2) [where env = env and r = r' and k = k and r' = r and k' = "fst kh"]
  by (auto simp: handle_inv_def BitmapStream_read_def contents_def split: option.splits)

lemma list_all_handle_inv_create:
  "list_all (handle_inv env r d) c \<Longrightarrow>
   list_all (handle_inv env r
    (d\<lparr>files := (files d)(tile_path env r' k DataFileExtension \<mapsto> contents d (tile_path env r' k DataFileExtension),
                          tile_path env r' k IndexFileExtension \<mapsto> contents d (tile_path env r' k IndexFileExtension))\<rparr>)) c"
  by (induction c) (auto intro: handle_inv_create)

lemma getQuadKeyData_inv:
  assumes "store_inv env s" and "getQuadKeyData env k s = (h, s1)"
  shows "handle_inv env (rootPath s) (disk s1) (k, h)" and "store_inv env s1"
proof -
  show 1: "handle_inv env (rootPath s) (disk s1) (k, h)"
  proof (cases "map_of (cache s) k")
    case None
    then show ?thesis
      using assms(2) by (auto simp: getQuadKeyData_miss Let_def handle_inv_def contents_def)
  next
    case (Some h')
    then show ?thesis
      using assms by (auto simp: getQuadKeyData_hit store_inv_def dest: map_of_list_all)
  qed
  show "store_inv env s1"
  proof (cases "map_of (cache s) k")
    case None
    then have s1: "s1 = s\<lparr>cache := lru_put cacheCapacity k h (cache s), disk := disk s1\<rparr>"
      and d1: "disk s1 = (disk s)\<lparr>files := (files (disk s))
          (tile_path env (rootPath s) k DataFileExtension \<mapsto> contents (disk s) (tile_path env (rootPath s) k DataFileExtension),
           tile_path env (rootPath s) k IndexFileExtension \<mapsto> contents (disk s) (tile_path env (rootPath s) k IndexFileExtension))\<rparr>"
      using assms(2) by (auto simp: getQuadKeyData_miss Let_def)
    have "list_all (handle_inv env (rootPath s) (disk s1)) (cache s)"
      unfolding d1 using assms(1) by (auto simp: store_inv_def intro: list_all_handle_inv_create)
    then have "list_all (handle_inv env (rootPath s) (disk s1)) (lru_put cacheCapacity k h (cache s))"
      using 1 by (simp add: lru_put_def Let_def list_all_filter list_all_take)
    then show ?thesis
      by (subst s1) (simp add: store_inv_def)
  next
    case (Some h')
    then show ?thesis
      using assms 1 by (auto simp: getQuadKeyData_hit store_inv_def list_all_filter)
  qed
qed

lemma store_inv_new [simp]: "store_inv env (new_store r d)"
  by (simp add: store_inv_def new_store_def)

subsection \<open>Erasing\<close>

lemma std_remove_eq:
  "std_remove p d =
     (files d p = None \<or> p \<in> undeletable d,
      if files d p = None \<or> p \<in> undeletable d then d else d\<lparr>files := (files d)(p := None)\<rparr>)"
  by (simp add: std_remove_def)

lemma scan_new_tile:
  assumes "map_of (cache s) k = None" and "files (disk s) (getFilePath env s k IndexFileExtension) = None"
  shows "\<exists>s'. search_tile env k accept v tok s = Some (v, 0, s')"
  using assms
  by (simp add: search_tile_def getQuadKeyData_miss Let_def tellg_def contents_def getFilePath_tile_path)

lemma getQuadKeyData_disk:
  assumes "getQuadKeyData env k s = (h, s1)"
  shows "undeletable (disk s1) = undeletable (disk s)"
    and "p \<noteq> tile_path env (rootPath s) k DataFileExtension \<Longrightarrow>
         p \<noteq> tile_path env (rootPath s) k IndexFileExtension \<Longrightarrow> files (disk s1) p = files (disk s) p"
    and "contents (disk s1) p = contents (disk s) p"
    and "rootPath s1 = rootPath s" and "cerr s1 = cerr s" and "bitmapReads s1 = bitmapReads s"
  using assms
  by (cases "map_of (cache s) k"; auto simp: getQuadKeyData_miss getQuadKeyData_hit Let_def contents_def)+

lemma QuadKeyData_erase_eq:
  assumes "dataPath h \<noteq> indexPath h" "dataPath h \<noteq> bitmapPath h" "indexPath h \<noteq> bitmapPath h"
  shows "files (fst (QuadKeyData_erase h d)) q =
           (if q \<in> {dataPath h, indexPath h, bitmapPath h} \<and> q \<notin> undeletable d then None else files d q)"
    and "undeletable (fst (QuadKeyData_erase h d)) = undeletable d"
    and "snd (QuadKeyData_erase h d) =
           map logEraseError (filter (\<lambda>p. files d p = None \<or> p \<in> undeletable d)
              [dataPath h, indexPath h, bitmapPath h])"
  using assms
  by (auto simp: QuadKeyData_erase_def std_remove_def Let_def split: prod.splits if_splits)


subsection \<open>Cancellation\<close>

lemma scan_loop_cancel:
  "scan_loop env d collect tok n h vs p = Some (h', ws, q) \<Longrightarrow>
   \<exists>es. ws = vs @ es \<and> length es \<le> n \<and> (\<forall>i<length es. \<not> tok (p + i))
        \<and> (if length es < n then tok (p + length es) \<and> q = Suc (p + length es) else q = p + n)"
proof (induction n arbitrary: h vs p)
  case 0
  then show ?case by simp
next
  case (Suc n)
  show ?case
  proof (cases "tok p")
    case True
    with Suc.prems show ?thesis by simp
  next
    case False
    with Suc.prems obtain h1 vs1 where v: "visit_entry env d collect h vs = Some (h1, vs1)"
      and s: "scan_loop env d collect tok n h1 vs1 (Suc p) = Some (h', ws, q)"
      by (auto split: option.splits)
    from v obtain e where vs1: "vs1 = vs @ [e]"
      by (auto simp: visit_entry_def collect_def Let_def split: option.splits prod.splits)
    from Suc.IH [OF s] obtain es where es: "ws = vs1 @ es" "length es \<le> n"
      "\<forall>i<length es. \<not> tok (Suc p + i)"
      "if length es < n then tok (Suc p + length es) \<and> q = Suc (Suc p + length es) else q = Suc p + n"
      by blast
    have "\<forall>i<length (e # es). \<not> tok (p + i)"
    proof (intro allI impI)
      fix i assume "i < length (e # es)"
      then show "\<not> tok (p + i)"
        using False es(3) by (cases i) auto
    qed
    with es vs1 show ?thesis
      by (intro exI [of _ "e # es"]) (auto split: if_splits)
  qed
qed

lemma scan_loop_prefix:
  "scan_loop env d collect tok n h vs p = Some (h', ws, q) \<Longrightarrow>
   scan_loop env d collect (\<lambda>_. False) n h vs p0 = Some (h0, ws0, q0) \<Longrightarrow>
   ws = take (length ws) ws0"
proof (induction n arbitrary: h vs p p0)
  case 0
  then show ?case by simp
next
  case (Suc n)
  from Suc.prems(2) obtain h1 vs1 where v: "visit_entry env d collect h vs = Some (h1, vs1)"
    and s0: "scan_loop env d collect (\<lambda>_. False) n h1 vs1 (Suc p0) = Some (h0, ws0, q0)"
    by (auto split: option.splits)
  from v obtain e where vs1: "vs1 = vs @ [e]"
    by (auto simp: visit_entry_def collect_def Let_def split: option.splits prod.splits)
  from scan_loop_cancel [OF s0] obtain es0 where ws0: "ws0 = vs1 @ es0"
    by blast
  show ?case
  proof (cases "tok p")
    case True
    with Suc.prems(1) ws0 vs1 show ?thesis by simp
  next
    case False
    with Suc.prems(1) v have s: "scan_loop env d collect tok n h1 vs1 (Suc p) = Some (h', ws, q)"
      by simp
    from Suc.IH [OF s s0] show ?thesis .
  qed
qed

lemma scan_loop_returns:
  "scan_loop env d accept (\<lambda>_. False) n h v p0 = Some r0 \<Longrightarrow>
   \<exists>r. scan_loop env d accept tok n h v p = Some r"
proof (induction n arbitrary: h v p p0)
  case 0
  then show ?case by simp
next
  case (Suc n)
  then show ?case
    by (cases "tok p") (auto split: option.splits)
qed

subsection \<open>The visitor\<close>

lemma visit_entry_collect:
  "visit_entry env d accept h v =
     map_option (\<lambda>(h', es). (h', foldl (\<lambda>v e. accept e v) v es)) (visit_entry env d collect h [])"
  by (simp add: visit_entry_def collect_def Let_def split: option.splits prod.splits)

lemma notify_collect:
  "notify env k n accept v s =
     map_option (\<lambda>(es, s'). (foldl (\<lambda>v e. accept e v) v es, s')) (notify env k n collect [] s)"
  by (simp add: notify_def Let_def visit_entry_collect [of env _ accept] split: option.splits prod.splits)

lemma foldl_collect [simp]: "foldl (\<lambda>v e. collect e v) acc es = acc @ es"
  by (induction es arbitrary: acc) (simp_all add: collect_def)

lemma notify_all_acc:
  "notify_all env k collect ns acc s =
     map_option (\<lambda>(es, s'). (acc @ es, s')) (notify_all env k collect ns [] s)"
proof (induction ns arbitrary: acc s)
  case Nil
  then show ?case by simp
next
  case (Cons n ns)
  show ?case
  proof (cases "notify env k (of_nat n) collect [] s")
    case None
    then show ?thesis
      by (simp add: notify_collect [of env k _ collect acc])
  next
    case (Some r)
    obtain es1 s1 where r: "r = (es1, s1)" by (cases r)
    show ?thesis
      using Cons.IH [of "acc @ es1" s1] Cons.IH [of es1 s1]
      by (cases "notify_all env k collect ns [] s1")
        (auto simp: notify_collect [of env k _ collect acc] Some r)
  qed
qed

lemma notify_all_collect:
  "notify_all env k accept ns v s =
     map_option (\<lambda>(es, s'). (foldl (\<lambda>v e. accept e v) v es, s')) (notify_all env k collect ns [] s)"
proof (induction ns arbitrary: v s)
  case Nil
  then show ?case by simp
next
  case (Cons n ns)
  show ?case
  proof (cases "notify env k (of_nat n) collect [] s")
    case None
    then show ?thesis
      by (simp add: notify_collect [of env k _ accept v])
  next
    case (Some r)
    obtain es1 s1 where r: "r = (es1, s1)" by (cases r)
    show ?thesis
      using Cons.IH [of "foldl (\<lambda>v e. accept e v) v es1" s1] notify_all_acc [of env k ns es1 s1]
      by (cases "notify_all env k collect ns [] s1")
        (auto simp: notify_collect [of env k _ accept v] Some r)
  qed
qed

lemma search_tiles_acc:
  "search_tiles env q collect ks acc s =
     map_option (\<lambda>(es, s'). (acc @ es, s')) (search_tiles env q collect ks [] s)"
proof (induction ks arbitrary: acc s)
  case Nil
  then show ?case by simp
next
  case (Cons k ks)
  obtain bm s1 where b: "getBitmap env k s = (bm, s1)"
    by (cases "getBitmap env k s")
  show ?case
  proof (cases "notify_all env k collect (matching_orders q bm) [] s1")
    case None
    then show ?thesis
      by (simp add: b notify_all_acc [of env k _ acc])
  next
    case (Some r)
    obtain es1 s2 where r: "r = (es1, s2)" by (cases r)
    show ?thesis
      using Cons.IH [of "acc @ es1" s2] Cons.IH [of es1 s2]
      by (cases "search_tiles env q collect ks [] s2")
        (auto simp: b notify_all_acc [of env k _ acc] Some r)
  qed
qed

lemma search_tiles_collect:
  "search_tiles env q accept ks v s =
     map_option (\<lambda>(es, s'). (foldl (\<lambda>v e. accept e v) v es, s')) (search_tiles env q collect ks [] s)"
proof (induction ks arbitrary: v s)
  case Nil
  then show ?case by simp
next
  case (Cons k ks)
  obtain bm s1 where b: "getBitmap env k s = (bm, s1)"
    by (cases "getBitmap env k s")
  show ?case
  proof (cases "notify_all env k collect (matching_orders q bm) [] s1")
    case None
    then show ?thesis
      by (simp add: b notify_all_collect [of env k accept])
  next
    case (Some r)
    obtain es1 s2 where r: "r = (es1, s2)" by (cases r)
    show ?thesis
      using Cons.IH [of "foldl (\<lambda>v e. accept e v) v es1" s2] search_tiles_acc [of env q ks es1 s2]
      by (cases "search_tiles env q collect ks [] s2")
        (auto simp: b notify_all_collect [of env k accept] Some r)
  qed
qed

lemma foldl_filter_collect:
  "foldl (\<lambda>v e. ElementVisitorFilter collect P e v) acc es = acc @ filter P es"
  by (induction es arbitrary: acc) (simp_all add: ElementVisitorFilter_def collect_def)

subsection \<open>The bits of a store\<close>







subsection \<open>Two stores on one disk\<close>

lemma files_exist_upd: "files d p \<noteq> None \<Longrightarrow> (files d)(p \<mapsto> contents d p) = files d"
  by (auto simp: contents_def fun_eq_iff)

lemma getQuadKeyData_open_logs:
  assumes "store_inv env s" and "getQuadKeyData env k s = (h, s1)"
  shows "disk s1 = open_logs env (rootPath s) k (disk s)"
proof (cases "map_of (cache s) k")
  case None
  then show ?thesis
    using assms(2) by (auto simp: getQuadKeyData_miss Let_def open_logs_def)
next
  case (Some h')
  with assms(1) have "handle_inv env (rootPath s) (disk s) (k, h')"
    by (auto simp: store_inv_def dest: map_of_list_all)
  then have "files (disk s) (tile_path env (rootPath s) k DataFileExtension) \<noteq> None"
    "files (disk s) (tile_path env (rootPath s) k IndexFileExtension) \<noteq> None"
    by (auto simp: handle_inv_def)
  then have "open_logs env (rootPath s) k (disk s) = disk s"
    by (auto simp: open_logs_def contents_def fun_eq_iff intro!: Disk.equality)
  then show ?thesis
    using assms(2) Some by (auto simp: getQuadKeyData_hit)
qed

lemma store_inv_put_back:
  assumes "store_inv env s" and "handle_inv env (rootPath s) (disk s) (k, h')"
  shows "store_inv env (put_back k h' s)"
  using assms by (auto simp: store_inv_def put_back_def list_all_iff)

lemma store_inv_reads [simp]: "store_inv env (s\<lparr>bitmapReads := r\<rparr>) = store_inv env s"
  by (simp add: store_inv_def)

lemma put_back_frame [simp]:
  "disk (put_back k h s) = disk s" "rootPath (put_back k h s) = rootPath s"
  by (simp_all add: put_back_def)

lemma getBitmap_inv:
  assumes "store_inv env s"
  shows "fst (getBitmap env k s) =
           BitmapStream_read env (open_logs env (rootPath s) k (disk s))
             (tile_path env (rootPath s) k bitmapFileExtension)"
    and "store_inv env (snd (getBitmap env k s))"
    and "disk (snd (getBitmap env k s)) = open_logs env (rootPath s) k (disk s)"
    and "rootPath (snd (getBitmap env k s)) = rootPath s"
proof -
  obtain h s1 where g: "getQuadKeyData env k s = (h, s1)"
    by (cases "getQuadKeyData env k s")
  note i = getQuadKeyData_inv [OF assms g]
  note d = getQuadKeyData_open_logs [OF assms g]
  note f = getQuadKeyData_disk [OF g]
  have b: "getBitmap env k s = (loaded_bitmap env (disk s1) h,
      put_back k (h\<lparr>bitmapData := (bitmapData h)\<lparr>data := loaded_bitmap env (disk s1) h\<rparr>\<rparr>)
        (s1\<lparr>bitmapReads := bitmapReads s1 @ load_reads h\<rparr>))"
    by (simp add: getBitmap_def g QuadKeyData_getBitmap_eq)
  have l: "loaded_bitmap env (disk s1) h = BitmapStream_read env (disk s1) (tile_path env (rootPath s) k bitmapFileExtension)"
    using i(1) by (auto simp: loaded_bitmap_def handle_inv_def)
  show "fst (getBitmap env k s) =
           BitmapStream_read env (open_logs env (rootPath s) k (disk s))
             (tile_path env (rootPath s) k bitmapFileExtension)"
    using l by (simp add: b d)
  have "handle_inv env (rootPath s1) (disk s1)
      (k, h\<lparr>bitmapData := (bitmapData h)\<lparr>data := loaded_bitmap env (disk s1) h\<rparr>\<rparr>)"
    using i(1) by (auto simp: l f handle_inv_def)
  then show "store_inv env (snd (getBitmap env k s))"
    using i(2) by (simp add: b store_inv_put_back)
  show "disk (snd (getBitmap env k s)) = open_logs env (rootPath s) k (disk s)"
    by (simp add: b d)
  show "rootPath (snd (getBitmap env k s)) = rootPath s"
    by (simp add: b f)
qed

lemma getBitmap_sim:
  assumes "sim env s s'"
  shows "fst (getBitmap env k s) = fst (getBitmap env k s')"
    and "sim env (snd (getBitmap env k s)) (snd (getBitmap env k s'))"
  using assms getBitmap_inv [of env s k] getBitmap_inv [of env s' k]
  by (simp_all add: sim_def)

lemma visit_entry_same_streams:
  assumes "same_streams h h'"
  shows "rel_option (\<lambda>a b. same_streams (fst a) (fst b) \<and> snd a = snd b)
           (visit_entry env d accept h v) (visit_entry env d accept h' v)"
  using assms
  by (auto simp: visit_entry_def readIndexEntry_def fstream_read_def ElementStream_read_def seekg_beg_def
      same_streams_def Let_def split: option.splits prod.splits)

lemma visit_entry_inv:
  assumes "visit_entry env d accept (h\<lparr>indexFile := (indexFile h)\<lparr>pos := off\<rparr>\<rparr>) v = Some (h2, v')"
    and "handle_inv env r d (k, h)"
  shows "handle_inv env r d (k, h2)"
  using assms
  by (auto simp: visit_entry_def readIndexEntry_def fstream_read_def ElementStream_read_def seekg_beg_def
      handle_inv_def Let_def split: option.splits prod.splits if_splits)

lemma notify_sim:
  assumes "sim env s s'"
  shows "rel_option (\<lambda>a b. fst a = fst b \<and> sim env (snd a) (snd b))
           (notify env k n accept v s) (notify env k n accept v s')"
proof -
  obtain h s1 where g: "getQuadKeyData env k s = (h, s1)"
    by (cases "getQuadKeyData env k s")
  obtain h' s1' where g': "getQuadKeyData env k s' = (h', s1')"
    by (cases "getQuadKeyData env k s'")
  from assms have inv: "store_inv env s" "store_inv env s'" and eq: "rootPath s = rootPath s'" "disk s = disk s'"
    by (simp_all add: sim_def)
  define D where "D = open_logs env (rootPath s) k (disk s)"
  have d: "disk s1 = D" "disk s1' = D"
    using getQuadKeyData_open_logs [OF inv(1) g] getQuadKeyData_open_logs [OF inv(2) g'] eq
    by (simp_all add: D_def)
  have r: "rootPath s1 = rootPath s" "rootPath s1' = rootPath s"
    using getQuadKeyData_disk(4) [OF g] getQuadKeyData_disk(4) [OF g'] eq by simp_all
  have i: "handle_inv env (rootPath s) D (k, h)" "store_inv env s1"
    using getQuadKeyData_inv [OF inv(1) g] by (simp_all add: d)
  have i': "handle_inv env (rootPath s) D (k, h')" "store_inv env s1'"
    using getQuadKeyData_inv [OF inv(2) g'] eq by (simp_all add: d)
  let ?h = "h\<lparr>indexFile := (indexFile h)\<lparr>pos := unat n * entryWidth\<rparr>\<rparr>"
  let ?h' = "h'\<lparr>indexFile := (indexFile h')\<lparr>pos := unat n * entryWidth\<rparr>\<rparr>"
  have "same_streams ?h ?h'"
    using i(1) i'(1) by (auto simp: same_streams_def handle_inv_def)
  from visit_entry_same_streams [OF this, of env D accept v]
  have v: "rel_option (\<lambda>a b. same_streams (fst a) (fst b) \<and> snd a = snd b)
           (visit_entry env D accept ?h v) (visit_entry env D accept ?h' v)" .
  have n: "notify env k n accept v s =
      (case visit_entry env D accept ?h v of None \<Rightarrow> None
       | Some (h2, v') \<Rightarrow> Some (v', put_back k h2 s1))"
    by (simp add: notify_def g seekg_beg_def d)
  have n': "notify env k n accept v s' =
      (case visit_entry env D accept ?h' v of None \<Rightarrow> None
       | Some (h2, v') \<Rightarrow> Some (v', put_back k h2 s1'))"
    by (simp add: notify_def g' seekg_beg_def d)
  show ?thesis
  proof (cases "visit_entry env D accept ?h v")
    case None
    with v show ?thesis by (simp add: n n')
  next
    case (Some a)
    obtain h2 v2 where a: "a = (h2, v2)" by (cases a)
    from Some v obtain b where b: "visit_entry env D accept ?h' v = Some b" and ab: "snd a = snd b"
      by (cases "visit_entry env D accept ?h' v") auto
    obtain h2' v2' where b': "b = (h2', v2')" by (cases b)
    have "handle_inv env (rootPath s) D (k, h2)"
      using Some i(1) unfolding a by (rule visit_entry_inv)
    then have 1: "store_inv env (put_back k h2 s1)"
      using i(2) by (intro store_inv_put_back) (simp_all add: r d)
    have "handle_inv env (rootPath s) D (k, h2')"
      using b i'(1) unfolding b' by (rule visit_entry_inv)
    then have 2: "store_inv env (put_back k h2' s1')"
      using i'(2) by (intro store_inv_put_back) (simp_all add: r d)
    show ?thesis
      using 1 2 ab by (simp add: n n' Some b a b' sim_def r d)
  qed
qed

lemma notify_all_sim:
  assumes "sim env s s'"
  shows "rel_option (\<lambda>a b. fst a = fst b \<and> sim env (snd a) (snd b))
           (notify_all env k accept ns v s) (notify_all env k accept ns v s')"
  using assms
proof (induction ns arbitrary: v s s')
  case Nil
  then show ?case by simp
next
  case (Cons n ns)
  from notify_sim [OF Cons.prems, of k "of_nat n" accept v]
  show ?case
    by (cases "notify env k (of_nat n) accept v s"; cases "notify env k (of_nat n) accept v s'")
      (auto intro: Cons.IH)
qed

lemma search_tiles_sim:
  assumes "sim env s s'"
  shows "rel_option (\<lambda>a b. fst a = fst b \<and> sim env (snd a) (snd b))
           (search_tiles env q accept ks v s) (search_tiles env q accept ks v s')"
  using assms
proof (induction ks arbitrary: v s s')
  case Nil
  then show ?case by simp
next
  case (Cons k ks)
  obtain bm s1 where b: "getBitmap env k s = (bm, s1)"
    by (cases "getBitmap env k s")
  obtain bm' s1' where b': "getBitmap env k s' = (bm', s1')"
    by (cases "getBitmap env k s'")
  from getBitmap_sim [OF Cons.prems, of k] have e: "bm' = bm" and s: "sim env s1 s1'"
    by (simp_all add: b b')
  from notify_all_sim [OF s, of k accept "matching_orders q bm" v]
  show ?case
    by (cases "notify_all env k accept (matching_orders q bm) v s1";
        cases "notify_all env k accept (matching_orders q bm) v s1'")
      (auto simp: b b' e intro: Cons.IH)
qed







lemma store_inv_flush [simp]: "store_inv env (flush s)"
  by (simp add: flush_def store_inv_def lru_clear_def)


subsection \<open>The operations keep the invariant\<close>

text \<open>
  The invariant holds in a new store and after \<open>flush\<close> and \<open>erase\<close> (the cache is
  empty), and the searches keep it. \<open>store\<close> keeps it when the bitmap codec reads back
  what it wrote and the tiles in use have distinct paths.
\<close>

lemma handle_inv_store_other:
  assumes "handle_inv env r d kh"
    and "tile_path env r (fst kh) bitmapFileExtension \<noteq> tile_path env r k bitmapFileExtension"
    and "length (contents d (tile_path env r k IndexFileExtension)) \<le> length idx"
  shows "handle_inv env r
    (d\<lparr>files := (files d)(tile_path env r k IndexFileExtension \<mapsto> idx,
                          tile_path env r k DataFileExtension \<mapsto> dat,
                          tile_path env r k bitmapFileExtension \<mapsto> blob)\<rparr>) kh"
  using assms
    tile_path_ext [where env = env and r = r and k = k and r' = r and k' = "fst kh"]
    tile_path_ext [where env = env and r = r and k = "fst kh" and r' = r and k' = k]
  by (auto simp: handle_inv_def BitmapStream_read_def contents_def split: option.splits)

lemma keys_in_getQuadKeyData:
  assumes "keys_in K s" and "k \<in> K" and "getQuadKeyData env k s = (h, s1)"
  shows "keys_in K s1"
  using assms
  by (cases "map_of (cache s) k")
    (auto simp: keys_in_def getQuadKeyData_miss getQuadKeyData_hit lru_put_def Let_def
      list_all_filter list_all_take)

lemma list_all_keys_map:
  "list_all (\<lambda>kv. fst kv \<in> K) (map (\<lambda>kv. if fst kv = k then (k, g kv) else kv) c)
     = list_all (\<lambda>kv. fst kv \<in> K) c"
  by (induction c) auto

lemma keys_in_put_back [simp]: "keys_in K (put_back k h s) = keys_in K s"
  by (simp add: keys_in_def put_back_def list_all_keys_map)

lemma store_inv_store:
  assumes inv: "store_inv env s"
    and codec: "\<And>bm. readBitmap env (writeBitmap env bm) = bm"
    and inj: "inj_on (\<lambda>k. tile_path env (rootPath s) k bitmapFileExtension) K"
    and keys: "keys_in K s" "k \<in> K"
  shows "store_inv env (store env e k s)" and "keys_in K (store env e k s)"
proof -
  obtain h s1 where g: "getQuadKeyData env k s = (h, s1)"
    by (cases "getQuadKeyData env k s")
  from getQuadKeyData_front [OF g] obtain rest where
    s1: "s1 = \<lparr>rootPath = rootPath s, cache = (k, h) # rest, disk = disk s1, cerr = cerr s,
           bitmapReads = bitmapReads s\<rparr>"
    and nk: "list_all (\<lambda>kv. fst kv \<noteq> k) rest"
    by blast
  define r where "r = rootPath s"
  define d where "d = disk s1"
  let ?dp = "tile_path env r k DataFileExtension"
  let ?ip = "tile_path env r k IndexFileExtension"
  let ?bp = "tile_path env r k bitmapFileExtension"
  have g': "getQuadKeyData env k s =
      (h, \<lparr>rootPath = r, cache = (k, h) # rest, disk = d, cerr = cerr s, bitmapReads = bitmapReads s\<rparr>)"
    using g s1 by (simp add: r_def d_def)
  have hi: "handle_inv env r d (k, h)"
    using getQuadKeyData_inv(1) [OF inv g] by (simp add: r_def d_def)
  have "store_inv env s1"
    by (rule getQuadKeyData_inv(2) [OF inv g])
  then have ri: "list_all (handle_inv env r d) rest"
    by (subst (asm) s1) (simp add: store_inv_def r_def d_def)
  have "keys_in K s1"
    by (rule keys_in_getQuadKeyData [OF keys g])
  then have rk: "list_all (\<lambda>kv. fst kv \<in> K) rest"
    by (subst (asm) s1) (simp add: keys_in_def)
  have paths: "fpath (dataFile h) = ?dp" "fpath (indexFile h) = ?ip" "path (bitmapData h) = ?bp"
    using hi by (simp_all add: handle_inv_def)
  note st = store_lit [OF g' nk paths tile_path_distinct(1,2,3)]
  define idx where "idx = contents d ?ip @ le_bytes 8 (unat (elem_id e))
      @ le_bytes 4 (unat (of_nat (pos (dataFile h)) :: 32 word))"
  define dat where "dat = contents d ?dp @ writeElement env e"
  define bm where "bm = stored_bitmap env (add_terms (terms e)
      (unat (of_nat (pos (indexFile h) div 12) :: 32 word)) (loaded_bitmap env d h))"
  define d' where "d' = d\<lparr>files := (files d)(?ip \<mapsto> idx, ?dp \<mapsto> dat, ?bp \<mapsto> writeBitmap env bm)\<rparr>"
  define h' where "h' = h\<lparr>dataFile := (dataFile h)\<lparr>pos := length dat\<rparr>,
                       indexFile := (indexFile h)\<lparr>pos := length idx\<rparr>,
                       bitmapData := (bitmapData h)\<lparr>data := bm\<rparr>\<rparr>"
  have res: "cache (store env e k s) = (k, h') # rest" "disk (store env e k s) = d'"
    "rootPath (store env e k s) = r"
    by (simp_all add: st Let_def idx_def dat_def bm_def d'_def h'_def)
  have 1: "handle_inv env r d' (k, h')"
    using hi codec by (simp add: handle_inv_def h'_def d'_def)
  have 2: "handle_inv env r d' kh" if "kh \<in> set rest" for kh
  proof -
    from that have a: "handle_inv env r d kh" "fst kh \<noteq> k" "fst kh \<in> K"
      using ri nk rk by (auto simp: list_all_iff)
    with inj keys(2) have "tile_path env r (fst kh) bitmapFileExtension \<noteq> ?bp"
      by (auto simp: inj_on_def r_def)
    moreover have "length (contents d ?ip) \<le> length idx"
      by (simp add: idx_def)
    ultimately show ?thesis
      unfolding d'_def using a(1) by (rule handle_inv_store_other [rotated])
  qed
  show "store_inv env (store env e k s)"
    using 1 2 by (simp add: store_inv_def res list_all_iff)
  show "keys_in K (store env e k s)"
    using rk keys(2) by (simp add: keys_in_def res)
qed


lemma scan_loop_inv:
  assumes "scan_loop env d accept tok n h v p = Some (h2, v', q)" and "handle_inv env r d (k, h)"
  shows "handle_inv env r d (k, h2)"
  using assms
proof (induction n arbitrary: h v p)
  case 0
  then show ?case by simp
next
  case (Suc n)
  show ?case
  proof (cases "tok p")
    case True
    with Suc.prems show ?thesis by simp
  next
    case False
    with Suc.prems(1) obtain h1 v1 where v: "visit_entry env d accept h v = Some (h1, v1)"
      and s: "scan_loop env d accept tok n h1 v1 (Suc p) = Some (h2, v', q)"
      by (auto split: option.splits)
    from v have "visit_entry env d accept (h\<lparr>indexFile := (indexFile h)\<lparr>pos := pos (indexFile h)\<rparr>\<rparr>) v = Some (h1, v1)"
      by simp
    from visit_entry_inv [OF this Suc.prems(2)] have "handle_inv env r d (k, h1)" .
    from Suc.IH [OF s this] show ?thesis .
  qed
qed

lemma store_inv_search_tile:
  assumes "store_inv env s" and "search_tile env k accept v tok s = Some (v', p, s')"
  shows "store_inv env s'"
proof -
  obtain h s1 where g: "getQuadKeyData env k s = (h, s1)"
    by (cases "getQuadKeyData env k s")
  note i = getQuadKeyData_inv [OF assms(1) g]
  note f = getQuadKeyData_disk [OF g]
  from assms(2) obtain h2 where
    sc: "scan_loop env (disk s1) accept tok
           (unat (of_nat (tellg (indexFile h) div entryWidth) :: 32 word))
           (h\<lparr>indexFile := seekg_beg 0 (indexFile h)\<rparr>) v 0 = Some (h2, v', p)"
    and s': "s' = put_back k h2 s1"
    by (auto simp: search_tile_def g Let_def split: option.splits)
  have "handle_inv env (rootPath s) (disk s1) (k, h\<lparr>indexFile := seekg_beg 0 (indexFile h)\<rparr>)"
    using i(1) by (auto simp: handle_inv_def seekg_beg_def)
  from scan_loop_inv [OF sc this] have "handle_inv env (rootPath s1) (disk s1) (k, h2)"
    by (simp add: f)
  with i(2) show ?thesis
    unfolding s' by (rule store_inv_put_back)
qed

lemma keys_in_search_tile:
  assumes "keys_in K s" and "k \<in> K" and "search_tile env k accept v tok s = Some (v', p, s')"
  shows "keys_in K s'"
proof -
  obtain h s1 where g: "getQuadKeyData env k s = (h, s1)"
    by (cases "getQuadKeyData env k s")
  from assms(3) obtain h2 where "s' = put_back k h2 s1"
    by (auto simp: search_tile_def g Let_def split: option.splits)
  then show ?thesis
    using keys_in_getQuadKeyData [OF assms(1,2) g] by simp
qed

lemma store_inv_search_query:
  assumes "store_inv env s" and "search_query env q accept v tok s = Some (v', s')"
  shows "store_inv env s'"
proof -
  have "sim env s s"
    using assms(1) by (simp add: sim_def)
  from search_tiles_sim [OF this, of q
      "ElementVisitorFilter accept (\<lambda>element. intersects env element (boundingBox q))"
      "tileRange env (boundingBox q) (lodRange q)" v]
  show ?thesis
    using assms(2) by (simp add: search_query_def BitmapIndex_search_def sim_def)
qed

lemma keys_in_reads [simp]: "keys_in K (s\<lparr>bitmapReads := r\<rparr>) = keys_in K s"
  by (simp add: keys_in_def)

lemma keys_in_getBitmap:
  assumes "keys_in K s" and "k \<in> K"
  shows "keys_in K (snd (getBitmap env k s))"
proof -
  obtain h s1 where g: "getQuadKeyData env k s = (h, s1)"
    by (cases "getQuadKeyData env k s")
  show ?thesis
    using keys_in_getQuadKeyData [OF assms g]
    by (simp add: getBitmap_def g QuadKeyData_getBitmap_eq)
qed

lemma keys_in_notify:
  assumes "keys_in K s" and "k \<in> K" and "notify env k n accept v s = Some (v', s')"
  shows "keys_in K s'"
proof -
  obtain h s1 where g: "getQuadKeyData env k s = (h, s1)"
    by (cases "getQuadKeyData env k s")
  from assms(3) obtain h2 where "s' = put_back k h2 s1"
    by (auto simp: notify_def g Let_def split: option.splits)
  then show ?thesis
    using keys_in_getQuadKeyData [OF assms(1,2) g] by simp
qed

lemma keys_in_notify_all:
  assumes "keys_in K s" and "k \<in> K" and "notify_all env k accept ns v s = Some (v', s')"
  shows "keys_in K s'"
  using assms
proof (induction ns arbitrary: v s)
  case Nil
  then show ?case by simp
next
  case (Cons n ns)
  from Cons.prems(3) obtain v1 s1 where n: "notify env k (of_nat n) accept v s = Some (v1, s1)"
    and r: "notify_all env k accept ns v1 s1 = Some (v', s')"
    by (auto split: option.splits)
  from keys_in_notify [OF Cons.prems(1,2) n] have "keys_in K s1" .
  from Cons.IH [OF this Cons.prems(2) r] show ?case .
qed

lemma keys_in_search_tiles:
  assumes "keys_in K s" and "set ks \<subseteq> K" and "search_tiles env q accept ks v s = Some (v', s')"
  shows "keys_in K s'"
  using assms
proof (induction ks arbitrary: v s)
  case Nil
  then show ?case by simp
next
  case (Cons k ks)
  obtain bm s1 where b: "getBitmap env k s = (bm, s1)"
    by (cases "getBitmap env k s")
  from Cons.prems(2) have k: "k \<in> K" "set ks \<subseteq> K"
    by simp_all
  from keys_in_getBitmap [OF Cons.prems(1) k(1), of env] have 1: "keys_in K s1"
    by (simp add: b)
  from Cons.prems(3) obtain v2 s2 where n: "notify_all env k accept (matching_orders q bm) v s1 = Some (v2, s2)"
    and r: "search_tiles env q accept ks v2 s2 = Some (v', s')"
    by (auto simp: b split: option.splits)
  from keys_in_notify_all [OF 1 k(1) n] have "keys_in K s2" .
  from Cons.IH [OF this k(2) r] show ?case .
qed

lemma keys_in_search_query:
  assumes "keys_in K s" and "set (tileRange env (boundingBox q) (lodRange q)) \<subseteq> K"
    and "search_query env q accept v tok s = Some (v', s')"
  shows "keys_in K s'"
  using assms(3) keys_in_search_tiles [OF assms(1,2)]
  by (simp add: search_query_def BitmapIndex_search_def)

lemma store_inv_erase [simp]: "store_inv env (erase env k s)" "keys_in K (erase env k s)"
  by (simp_all add: erase_def store_inv_def keys_in_def lru_clear_def split: prod.splits)

lemma store_inv_hasData [simp]: "snd (hasData env k s) = s"
  by (simp add: hasData_def)

lemma store_inv_erase_range [simp]: "snd (erase_range bbox lr s) = s"
  by (simp add: erase_range_def)

lemma keys_in_flush [simp]: "keys_in K (flush s)" "keys_in K (new_store r d)"
  by (simp_all add: flush_def keys_in_def lru_clear_def new_store_def)

section \<open>Runs of the example store\<close>

lemma files_disk_of [simp]: "files (disk_of al) = map_of al"
  by (simp add: disk_of_def)

lemma undeletable_disk_of [simp]: "undeletable (disk_of al) = {}"
  by (simp add: disk_of_def)

lemma contents_disk_of [simp]:
  "contents (disk_of al) p = (case map_of al p of None \<Rightarrow> [] | Some bs \<Rightarrow> bs)"
  by (simp add: contents_def)

lemma disk_eq_disk_of:
  "d = disk_of al \<longleftrightarrow> (\<forall>p. files d p = map_of al p) \<and> undeletable d = {}"
  by (cases d) (auto simp: disk_of_def fun_eq_iff)

lemma demo_env_sel [simp]:
  "writeElement demo_env = demo_writeElement"
  "readElement demo_env = demo_readElement"
  "writeBitmap demo_env = demo_writeBitmap"
  "readBitmap demo_env = demo_readBitmap"
  "intersects demo_env e bb = (fst bb \<le> geometry e \<and> geometry e \<le> snd bb)"
  "quadKeyToString demo_env k = ''t''"
  "tileRange demo_env bb r = [\<lparr>levelOfDetail = lod_start r, tileX = 0, tileY = 0\<rparr>]"
  by (simp_all add: demo_env_def)

lemma q1_sel [simp]:
  "boundingBox q1 = (0, 10)" "lodRange q1 = \<lparr>lod_start = 1, lod_end = 1\<rparr>"
  by (simp_all add: q1_def)

lemma H_sel [simp]:
  "dataFile (H dpos ipos bm) = \<lparr>fpath = ''r/1/t.dat'', pos = dpos\<rparr>"
  "indexFile (H dpos ipos bm) = \<lparr>fpath = ''r/1/t.idf'', pos = ipos\<rparr>"
  "bitmapData (H dpos ipos bm) = \<lparr>path = ''r/1/t.bmp'', data = bm\<rparr>"
  "H dpos ipos bm\<lparr>dataFile := \<lparr>fpath = ''r/1/t.dat'', pos = dpos'\<rparr>\<rparr> = H dpos' ipos bm"
  "H dpos ipos bm\<lparr>indexFile := \<lparr>fpath = ''r/1/t.idf'', pos = ipos'\<rparr>\<rparr> = H dpos ipos' bm"
  "H dpos ipos bm\<lparr>bitmapData := \<lparr>path = ''r/1/t.bmp'', data = bm'\<rparr>\<rparr> = H dpos ipos bm'"
  by (simp_all add: H_def)

lemma loaded_H [simp]:
  "bm \<noteq> [] \<Longrightarrow> loaded_bitmap env d (H dpos ipos bm) = bm"
  "bm \<noteq> [] \<Longrightarrow> load_reads (H dpos ipos bm) = []"
  "loaded_bitmap env d (H dpos ipos []) = BitmapStream_read env d ''r/1/t.bmp''"
  "load_reads (H dpos ipos []) = [''r/1/t.bmp'']"
  by (simp_all add: loaded_bitmap_def load_reads_def)

lemmas demo_paths = getFilePath_def decimal_int_def decimal.simps [of "Suc 0"]
  DataFileExtension_def IndexFileExtension_def bitmapFileExtension_def

lemmas demo_eval = add_terms_def bitmap_set_def term_bits_def set_bit_at_def BitmapStream_read_def
  demo_writeElement_def demo_byte_def demo_term_def stored_bitmap_def le_bytes_8 le_bytes_4
  numeral_2_eq_2 [symmetric]

lemma demo_open:
  "getQuadKeyData demo_env T (new_store ''r'' (disk_of [])) =
     (H 0 0 [], \<lparr>rootPath = ''r'', cache = [(T, H 0 0 [])],
        disk = disk_of [(''r/1/t.dat'', []), (''r/1/t.idf'', [])], cerr = [], bitmapReads = []\<rparr>)"
  by (simp add: getQuadKeyData_def new_store_def lru_get_def lru_put_def QuadKeyData_new_def
      fstream_open_def demo_paths T_def H_def cacheCapacity_def disk_eq_disk_of)

lemma demo_save1:
  "save demo_env E1 T (new_store ''r'' (disk_of [])) =
     \<lparr>rootPath = ''r'', cache = [(T, H 3 12 [(''a'', [True])])],
       disk = disk_of [(''r/1/t.dat'', [5, 1, 97]), (''r/1/t.idf'', [1, 0, 0, 0, 0, 0, 0, 0, 0, 0, 0, 0]),
                       (''r/1/t.bmp'', demo_writeBitmap [(''a'', [True])])],
       cerr = [], bitmapReads = [''r/1/t.bmp'']\<rparr>"
  unfolding save_def
  apply (subst store_lit [OF demo_open, where dp = "''r/1/t.dat''" and ip = "''r/1/t.idf''" and bp = "''r/1/t.bmp''"])
  apply (simp_all add: Let_def demo_eval disk_eq_disk_of E1_def)
  done

lemma demo_save2:
  "save demo_env E2 T (save demo_env E1 T (new_store ''r'' (disk_of []))) = S2 6 24"
  unfolding demo_save1 S2_def
  unfolding save_def
  apply (subst store_lit [OF getQuadKeyData_lit, where dp = "''r/1/t.dat''" and ip = "''r/1/t.idf''" and bp = "''r/1/t.bmp''"])
  apply (simp_all add: Let_def demo_eval disk_eq_disk_of E2_def idx2_def bm2_def)
  done

lemma bm2_ne [simp]: "bm2 \<noteq> []"
  by (simp add: bm2_def)

lemma matching_q1: "matching_orders q1 bm2 = [0]"
  by (simp add: matching_orders_def bitmap_size_def bm2_def query_matches_def q1_def term_bits_def
      bit_at_def upt_rec [of 0] upt_rec [of 1] upt_rec [of 2] numeral_2_eq_2 [symmetric])

lemma demo_query:
  "search_query demo_env q1 collect [] tok (S2 dpos ipos) = Some ([E1], S2 3 12)"
  unfolding S2_def
  apply (simp add: search_query_def BitmapIndex_search_def T_def [symmetric] getBitmap_lit matching_q1 notify_lit)
  apply (simp add: visit_entry_def readIndexEntry_def fstream_read_def ElementStream_read_def seekg_beg_def
        idx2_def demo_readElement_def demo_term_def ElementVisitorFilter_def collect_def E1_def
        numeral_2_eq_2 [symmetric])
  done

lemma demo_save3: "save demo_env E3 T (S2 3 12) = S4"
  unfolding S2_def S4_def save_def
  apply (subst store_lit [OF getQuadKeyData_lit, where dp = "''r/1/t.dat''" and ip = "''r/1/t.idf''" and bp = "''r/1/t.bmp''"])
  apply (simp_all add: Let_def demo_eval disk_eq_disk_of E3_def idx2_def bm2_def bm3_def)
  done

lemma demo_scan:
  "search_tile demo_env T collect [] (\<lambda>_. False) S4 =
     Some ([E1, E2, \<lparr>elem_id = 3, terms = [''b''], geometry = 6\<rparr>], 3,
           S4\<lparr>cache := [(T, H 6 36 bm3)]\<rparr>)"
  unfolding S4_def
  apply (simp add: search_tile_lit)
  apply (simp add: scan_loop_numeral visit_entry_def readIndexEntry_def fstream_read_def ElementStream_read_def seekg_beg_def
        idx2_def demo_readElement_def demo_term_def collect_def E1_def E2_def numeral_2_eq_2 [symmetric])
  done





lemma demo_scan_cancelled:
  "search_tile demo_env T collect [] (\<lambda>i. 0 < i) S4 = Some ([E1], 2, S4\<lparr>cache := [(T, H 3 12 bm3)]\<rparr>)"
  unfolding S4_def
  apply (simp add: search_tile_lit)
  apply (simp add: scan_loop_numeral visit_entry_def readIndexEntry_def fstream_read_def ElementStream_read_def seekg_beg_def
        idx2_def demo_readElement_def demo_term_def collect_def E1_def E2_def numeral_2_eq_2 [symmetric])
  done

lemma demo_scan_cut:
  "search_tile demo_env T collect [] (\<lambda>i. 0 < i) (S2 dpos 24) = Some ([E1], 2, S2 3 12)"
  unfolding S2_def
  apply (simp add: search_tile_lit)
  apply (simp add: scan_loop_numeral visit_entry_def readIndexEntry_def fstream_read_def ElementStream_read_def seekg_beg_def
        idx2_def demo_readElement_def demo_term_def collect_def E1_def E2_def numeral_2_eq_2 [symmetric])
  done


lemma demo_candidates:
  "BitmapIndex_search demo_env q2 collect [] (S2 dpos ipos) = Some ([E1], S2 3 12)"
proof -
  have m: "matching_orders q2 bm2 = [0]"
    by (simp add: matching_orders_def bitmap_size_def bm2_def query_matches_def q2_def term_bits_def
      bit_at_def upt_rec [of 0] upt_rec [of 1] upt_rec [of 2] numeral_2_eq_2 [symmetric])
  have s: "lodRange q2 = \<lparr>lod_start = 1, lod_end = 1\<rparr>"
    by (simp add: q2_def)
  show ?thesis
    unfolding S2_def
    apply (simp add: BitmapIndex_search_def s T_def [symmetric] getBitmap_lit m notify_lit)
    apply (simp add: visit_entry_def readIndexEntry_def fstream_read_def ElementStream_read_def seekg_beg_def
        idx2_def demo_readElement_def demo_term_def collect_def E1_def numeral_2_eq_2 [symmetric])
    done
qed






section \<open>The claims\<close>

subsection \<open>Round trip and insertion order\<close>

text \<open>
  C1. After \<open>save(E, T)\<close> a full scan of \<open>T\<close> delivers an element with the
  identifier and the payload of \<open>E\<close>, and elements saved in a sequence are delivered
  in that order. The code breaks this when the save follows a read that left the
  handle's streams before the end of their files: \<open>store\<close> records \<^verbatim>\<open>tellg()\<close>
  as the offset, but the record is appended at the end. In the run below \<open>E1\<close> and
  \<open>E2\<close> are saved, a term query decodes \<open>E1\<close> (a scan cancelled after its first
  element leaves the same state), and \<open>E3\<close> is saved; the scan then delivers, third,
  the identifier of \<open>E3\<close> with the payload of \<open>E2\<close>.
\<close>

theorem scan_after_query_and_save:
  "search_query demo_env q1 collect [] (\<lambda>_. False)
      (save demo_env E2 T (save demo_env E1 T (new_store ''r'' (disk_of [])))) = Some ([E1], S2 3 12)
   \<and> search_tile demo_env T collect [] (\<lambda>i. 0 < i)
      (save demo_env E2 T (save demo_env E1 T (new_store ''r'' (disk_of [])))) = Some ([E1], 2, S2 3 12)
   \<and> map_option fst (search_tile demo_env T collect [] (\<lambda>_. False) (save demo_env E3 T (S2 3 12)))
       = Some [E1, E2, \<lparr>elem_id = 3, terms = [''b''], geometry = 6\<rparr>]
   \<and> E3 \<noteq> \<lparr>elem_id = 3, terms = [''b''], geometry = 6\<rparr>"
proof -
  have "E3 \<noteq> \<lparr>elem_id = 3, terms = [''b''], geometry = 6\<rparr>"
    by (simp add: E3_def)
  then show ?thesis
    by (simp add: demo_save2 demo_query demo_scan_cut demo_save3 demo_scan)
qed

subsection \<open>The offset and the order of a new entry\<close>

text \<open>
  C2. In every reachable state the offset written into the new index entry is the
  end of the data log before the write, and the order handed to the bitmap index is
  the number of entries before the store. The code takes both from \<^verbatim>\<open>tellg()\<close>,
  the current positions of the streams. In the state that the run of C1 reaches
  after the term query or the cancelled scan, the data log has 6 bytes and the index log 2 entries, while the
  streams stand at 3 and 12: the entry that the next store appends has the offset 3,
  and the bit set for the term of the new element is bit 1.
\<close>

theorem store_records_stream_position:
  "length (contents (disk (S2 3 12)) ''r/1/t.dat'') = 6
   \<and> length (contents (disk (S2 3 12)) ''r/1/t.idf'') div entryWidth = 2
   \<and> contents (disk (store demo_env E3 T (S2 3 12))) ''r/1/t.idf''
       = contents (disk (S2 3 12)) ''r/1/t.idf'' @ entry_bytes (elem_id E3, 3)
   \<and> map_of (data (bitmapData (fst (getQuadKeyData demo_env T (store demo_env E3 T (S2 3 12)))))) ''c''
       = Some [False, True]"
  apply (simp add: demo_save3 [unfolded save_def])
  apply (simp add: S2_def S4_def idx2_def entryWidth_def entry_bytes_def le_bytes_8 le_bytes_4 E3_def
      getQuadKeyData_lit bm3_def)
  done

subsection \<open>Range deletion\<close>

text \<open>
  C6. \<open>erase(boundingBox, lodRange)\<close> always fails with the "not implemented"
  error, and the state it leaves is the state it was called in.
\<close>

theorem erase_range_not_implemented:
  "erase_range bbox r s =
     (Inl (domain_error ''Deletion by bounding box and lod range is not implemented.''), s)"
  by (simp add: erase_range_def)

subsection \<open>Erasing a tile\<close>

text \<open>
  C5, as amended. \<open>erase(T)\<close> attempts to remove the three files of \<open>T\<close> whatever
  the outcome of the other removals, logs one line for each removal that failed,
  reports nothing to its caller and clears the cache. A file that can be removed is
  gone afterwards and every other file is as it was. \<open>hasData(T)\<close> is false
  afterwards when the data file could be removed, and a full scan of \<open>T\<close> visits
  nothing, as on a new tile, when the index file could be removed.
\<close>

theorem erase_best_effort:
  assumes "store_inv env s"
  shows "cache (erase env k s) = []
    \<and> undeletable (disk (erase env k s)) = undeletable (disk s)
    \<and> (\<forall>ext. ext \<in> {DataFileExtension, IndexFileExtension, bitmapFileExtension} \<longrightarrow>
          getFilePath env s k ext \<notin> undeletable (disk s) \<longrightarrow>
          files (disk (erase env k s)) (getFilePath env s k ext) = None)
    \<and> (\<forall>p. p \<notin> {getFilePath env s k DataFileExtension, getFilePath env s k IndexFileExtension,
                 getFilePath env s k bitmapFileExtension} \<longrightarrow>
          files (disk (erase env k s)) p = files (disk s) p)
    \<and> cerr (erase env k s) = cerr s @ map logEraseError
         (filter (\<lambda>p. p \<in> undeletable (disk s)
                       \<or> (p = getFilePath env s k bitmapFileExtension \<and> files (disk s) p = None))
            [getFilePath env s k DataFileExtension, getFilePath env s k IndexFileExtension,
             getFilePath env s k bitmapFileExtension])
    \<and> (getFilePath env s k DataFileExtension \<notin> undeletable (disk s) \<longrightarrow>
          \<not> fst (hasData env k (erase env k s)))
    \<and> (getFilePath env s k IndexFileExtension \<notin> undeletable (disk s) \<longrightarrow>
          (\<exists>s'. search_tile env k accept v tok (erase env k s) = Some (v, 0, s')))"
proof -
  obtain h s1 where g: "getQuadKeyData env k s = (h, s1)"
    by (cases "getQuadKeyData env k s")
  let ?dp = "tile_path env (rootPath s) k DataFileExtension"
  let ?ip = "tile_path env (rootPath s) k IndexFileExtension"
  let ?bp = "tile_path env (rootPath s) k bitmapFileExtension"
  from getQuadKeyData_inv(1) [OF assms g]
  have h: "dataPath h = ?dp" "indexPath h = ?ip" "bitmapPath h = ?bp"
    and f: "files (disk s1) ?dp \<noteq> None" "files (disk s1) ?ip \<noteq> None"
    by (auto simp: handle_inv_def)
  note d = getQuadKeyData_disk [OF g]
  have fb: "files (disk s1) ?bp = files (disk s) ?bp"
    by (rule d(2)) simp_all
  define d' where "d' = fst (QuadKeyData_erase h (disk s1))"
  have p: "dataPath h \<noteq> indexPath h" "dataPath h \<noteq> bitmapPath h" "indexPath h \<noteq> bitmapPath h"
    by (simp_all add: h)
  note q = QuadKeyData_erase_eq [OF p, of "disk s1"]
  have e: "erase env k s = s1\<lparr>disk := d', cerr := cerr s @ snd (QuadKeyData_erase h (disk s1)), cache := []\<rparr>"
    by (simp add: erase_def g d lru_clear_def d'_def split: prod.splits)
  have fd: "files d' p =
      (if p \<in> {?dp, ?ip, ?bp} \<and> p \<notin> undeletable (disk s) then None else files (disk s1) p)" for p
    unfolding d'_def q(1) by (simp add: h d(1))
  have ud: "undeletable d' = undeletable (disk s)"
    unfolding d'_def q(2) by (simp add: d(1))
  have l': "snd (QuadKeyData_erase h (disk s1)) = map logEraseError
         (filter (\<lambda>p. p \<in> undeletable (disk s) \<or> (p = ?bp \<and> files (disk s) p = None)) [?dp, ?ip, ?bp])"
    unfolding q(3) using f fb by (auto simp: h d(1))
  have 1: "cache (erase env k s) = []"
    by (simp add: e)
  have 2: "undeletable (disk (erase env k s)) = undeletable (disk s)"
    by (simp add: e ud)
  have 3: "getFilePath env s k ext \<notin> undeletable (disk s) \<Longrightarrow>
      files (disk (erase env k s)) (getFilePath env s k ext) = None"
    if "ext \<in> {DataFileExtension, IndexFileExtension, bitmapFileExtension}" for ext
    using that by (auto simp: e fd getFilePath_tile_path)
  have 4: "files (disk (erase env k s)) p = files (disk s) p"
    if "p \<notin> {getFilePath env s k DataFileExtension, getFilePath env s k IndexFileExtension,
                 getFilePath env s k bitmapFileExtension}" for p
    using that by (simp add: e fd getFilePath_tile_path d)
  have 5: "cerr (erase env k s) = cerr s @ map logEraseError
         (filter (\<lambda>p. p \<in> undeletable (disk s)
                       \<or> (p = getFilePath env s k bitmapFileExtension \<and> files (disk s) p = None))
            [getFilePath env s k DataFileExtension, getFilePath env s k IndexFileExtension,
             getFilePath env s k bitmapFileExtension])"
    by (simp add: e l' getFilePath_tile_path)
  have 6: "\<not> fst (hasData env k (erase env k s))"
    if "getFilePath env s k DataFileExtension \<notin> undeletable (disk s)"
    using that by (simp add: hasData_def e fd getFilePath_tile_path d)
  have 7: "\<exists>s'. search_tile env k accept v tok (erase env k s) = Some (v, 0, s')"
    if "getFilePath env s k IndexFileExtension \<notin> undeletable (disk s)"
    using that by (intro scan_new_tile) (simp_all add: e fd getFilePath_tile_path d)
  from 1 2 3 4 5 6 7 show ?thesis
    by blast
qed

theorem erase_best_effort_witness:
  "store_inv demo_env (new_store ''r'' locked_disk)
   \<and> cache (erase demo_env T (new_store ''r'' locked_disk)) = []
   \<and> ''r/1/t.idf'' \<notin> undeletable locked_disk
   \<and> files (disk (erase demo_env T (new_store ''r'' locked_disk))) ''r/1/t.idf'' = None
   \<and> cerr (erase demo_env T (new_store ''r'' locked_disk)) =
        [''Cannot erase r/1/t.dat'', ''Cannot erase r/1/t.bmp'']
   \<and> (\<exists>s'. search_tile demo_env T collect [] (\<lambda>_. False) (erase demo_env T (new_store ''r'' locked_disk))
              = Some ([], 0, s'))"
  using erase_best_effort [of demo_env "new_store ''r'' locked_disk" T collect "[]" "\<lambda>_. False"]
  by (simp add: demo_paths T_def logEraseError_def) (simp add: new_store_def locked_disk_def)

text \<open>
  The claim as stated fails: when the data file cannot be removed, \<open>hasData(T)\<close>
  is true after \<open>erase(T)\<close>.
\<close>

theorem erase_undeletable_hasData:
  "fst (hasData demo_env T (erase demo_env T (new_store ''r'' locked_disk)))"
  by (simp add: hasData_def erase_def getQuadKeyData_def new_store_def lru_get_def lru_put_def QuadKeyData_new_def
      fstream_open_def demo_paths T_def QuadKeyData_erase_def std_remove_def locked_disk_def lru_clear_def
      Let_def cacheCapacity_def)


subsection \<open>Loading the bitmap\<close>






subsection \<open>Probing for data\<close>

text \<open>
  C10. \<open>hasData(T)\<close> changes nothing: it returns the state it was called in, so
  it creates no file and leaves the cache as it is, and its answer is whether the data
  file exists. The cache-miss path of \<open>getQuadKeyData\<close>, in contrast, creates both
  logs and inserts the handle.
\<close>

theorem hasData_observation_only:
  "snd (hasData env k s) = s
   \<and> fst (hasData env k s) = (files (disk s) (getFilePath env s k DataFileExtension) \<noteq> None)
   \<and> (map_of (cache s) k = None \<longrightarrow>
        files (disk (snd (getQuadKeyData env k s))) (getFilePath env s k DataFileExtension) \<noteq> None
        \<and> files (disk (snd (getQuadKeyData env k s))) (getFilePath env s k IndexFileExtension) \<noteq> None
        \<and> map_of (cache (snd (getQuadKeyData env k s))) k \<noteq> None)"
  by (simp add: hasData_def getQuadKeyData_miss Let_def getFilePath_tile_path lru_put_def)

theorem hasData_observation_only_witness:
  "map_of (cache (new_store ''r'' (disk_of []))) T = None
   \<and> snd (hasData demo_env T (new_store ''r'' (disk_of []))) = new_store ''r'' (disk_of [])
   \<and> \<not> fst (hasData demo_env T (new_store ''r'' (disk_of [])))
   \<and> files (disk (snd (getQuadKeyData demo_env T (new_store ''r'' (disk_of []))))) ''r/1/t.dat'' \<noteq> None
   \<and> fst (hasData demo_env T (snd (getQuadKeyData demo_env T (new_store ''r'' (disk_of [])))))"
  using hasData_observation_only [of demo_env T "new_store ''r'' (disk_of [])"]
  unfolding demo_open
  by (simp add: hasData_def demo_paths T_def new_store_def)


subsection \<open>Cancellation\<close>

text \<open>
  C7. The full scan asks the cancellation token once before each entry: every
  visited entry was preceded by a call that answered "not cancelled", and the
  number of calls is the number of visited entries, plus the one call that observed
  the cancellation when there was one. On cancellation the scan returns with what it
  has visited, a prefix of what the scan visits when it is not cancelled, and a scan
  that returns when it is not cancelled returns under every token. The term query does
  not look at its token: its result is the same for every token.
\<close>

theorem scan_cancellation:
  "(search_tile env k collect [] tok s = Some (vs, polls, s') \<longrightarrow>
      (\<forall>i<length vs. \<not> tok i)
      \<and> (polls = length vs \<or> polls = Suc (length vs) \<and> tok (length vs)))
   \<and> (search_tile env k collect [] tok s = Some (vs, polls, s')
       \<and> search_tile env k collect [] (\<lambda>_. False) s = Some (ws, n, s0) \<longrightarrow>
      vs = take (length vs) ws \<and> (polls = length vs \<longrightarrow> vs = ws))
   \<and> (search_tile env k collect [] (\<lambda>_. False) s = Some (ws, n, s0) \<longrightarrow>
      (\<exists>vs' polls' s''. search_tile env k collect [] tok s = Some (vs', polls', s'')))
   \<and> search_query env q accept v tok s = search_query env q accept v tok' s"
proof -
  obtain h s1 where g: "getQuadKeyData env k s = (h, s1)"
    by (cases "getQuadKeyData env k s")
  define c where "c = unat (of_nat (tellg (indexFile h) div entryWidth) :: 32 word)"
  define h1 where "h1 = h\<lparr>indexFile := seekg_beg 0 (indexFile h)\<rparr>"
  have st: "search_tile env k collect [] t s =
      (case scan_loop env (disk s1) collect t c h1 [] 0 of
         None \<Rightarrow> None | Some (h2, v', p) \<Rightarrow> Some (v', p, put_back k h2 s1))" for t
    by (simp add: search_tile_def g c_def h1_def)
  have 1: "(\<forall>i<length vs. \<not> tok i) \<and> (polls = length vs \<or> polls = Suc (length vs) \<and> tok (length vs))"
    if "search_tile env k collect [] tok s = Some (vs, polls, s')"
  proof -
    from that obtain h2 where "scan_loop env (disk s1) collect tok c h1 [] 0 = Some (h2, vs, polls)"
      by (auto simp: st split: option.splits)
    from scan_loop_cancel [OF this] show ?thesis
      by (auto split: if_splits)
  qed
  have 2: "vs = take (length vs) ws \<and> (polls = length vs \<longrightarrow> vs = ws)"
    if "search_tile env k collect [] tok s = Some (vs, polls, s')"
      and "search_tile env k collect [] (\<lambda>_. False) s = Some (ws, n, s0)"
  proof -
    from that obtain h2 h3 where a: "scan_loop env (disk s1) collect tok c h1 [] 0 = Some (h2, vs, polls)"
      and b: "scan_loop env (disk s1) collect (\<lambda>_. False) c h1 [] 0 = Some (h3, ws, n)"
      by (auto simp: st split: option.splits)
    from scan_loop_cancel [OF a] have "polls = length vs \<longrightarrow> length vs = c"
      by (auto split: if_splits)
    moreover from scan_loop_cancel [OF b] have "length ws = c"
      by (auto split: if_splits)
    moreover note scan_loop_prefix [OF a b]
    ultimately show ?thesis
      by (metis order_refl take_all)
  qed
  have 3: "\<exists>vs' polls' s''. search_tile env k collect [] tok s = Some (vs', polls', s'')"
    if "search_tile env k collect [] (\<lambda>_. False) s = Some (ws, n, s0)"
  proof -
    from that obtain r0 where "scan_loop env (disk s1) collect (\<lambda>_. False) c h1 [] 0 = Some r0"
      by (auto simp: st split: option.splits)
    from scan_loop_returns [OF this, of tok 0] show ?thesis
      by (auto simp: st split: option.splits)
  qed
  have 4: "search_query env q accept v tok s = search_query env q accept v tok' s"
    by (simp add: search_query_def)
  from 1 2 3 4 show ?thesis
    by blast
qed

theorem scan_cancellation_witness:
  "search_tile demo_env T collect [] (\<lambda>i. 0 < i) S4 = Some ([E1], 2, S4\<lparr>cache := [(T, H 3 12 bm3)]\<rparr>)
   \<and> search_tile demo_env T collect [] (\<lambda>_. False) S4 =
       Some ([E1, E2, \<lparr>elem_id = 3, terms = [''b''], geometry = 6\<rparr>], 3, S4\<lparr>cache := [(T, H 6 36 bm3)]\<rparr>)
   \<and> \<not> (0 < (0::nat)) \<and> (0::nat) < length [E1]
   \<and> [E1] = take (length [E1]) [E1, E2, \<lparr>elem_id = 3, terms = [''b''], geometry = 6\<rparr>]
   \<and> search_query demo_env q1 collect [] (\<lambda>i. 0 < i) S4 = search_query demo_env q1 collect [] (\<lambda>_. False) S4"
  using scan_cancellation [of demo_env T "\<lambda>i. 0 < i" S4 "[E1]" 2 "S4\<lparr>cache := [(T, H 3 12 bm3)]\<rparr>"
      "[E1, E2, \<lparr>elem_id = 3, terms = [''b''], geometry = 6\<rparr>]" 3 "S4\<lparr>cache := [(T, H 6 36 bm3)]\<rparr>"
      q1 collect "[]" "\<lambda>_. False"]
  by (simp add: demo_scan demo_scan_cancelled)


subsection \<open>The geometric filter\<close>

text \<open>
  C4. What a term query delivers to the caller's visitor are the candidates that the
  bitmap query decodes, in their order, without those that do not intersect the
  bounding box of the query: no candidate outside the box is forwarded and every
  candidate that intersects it is. The store is left as by the bitmap query.
\<close>

theorem search_query_filters:
  "search_query env q collect [] tok s =
     map_option (\<lambda>(es, s'). (filter (\<lambda>e. intersects env e (boundingBox q)) es, s'))
       (BitmapIndex_search env q collect [] s)"
  unfolding search_query_def BitmapIndex_search_def
  by (subst search_tiles_collect) (simp add: foldl_filter_collect)

theorem search_query_filters_witness:
  "BitmapIndex_search demo_env q2 collect [] (S2 6 24) = Some ([E1], S2 3 12)
   \<and> \<not> intersects demo_env E1 (boundingBox q2)
   \<and> search_query demo_env q2 collect [] (\<lambda>_. False) (S2 6 24) = Some ([], S2 3 12)"
  using search_query_filters [of demo_env q2 "\<lambda>_. False" "S2 6 24"]
  by (simp add: demo_candidates) (simp add: q2_def E1_def)

subsection \<open>The bitmap after a store\<close>






subsection \<open>Flushing\<close>



end
